theory Spec2Isabelle
  imports Main "HOL-Library.Multiset" "HOL-Library.AList"
begin

section \<open>Exceptions\<close>

text \<open>
  Every exception the modelled functions raise is a value of one datatype; a function
  that can raise returns \<open>error + 'a\<close>, with \<open>Inl\<close> for the exception.
\<close>

datatype error =
    Empty
  | GrabMisuseError string
  | GrabTooManyRedirectsError
  | TransportError string
  | ValueError string
  | KeyError string
  | AttributeError string
  | SpiderError
  | AssertionError
  | TypeError string

section \<open>The memory queue backend (grab/spider/queue\_backend/memory.py)\<close>

text \<open>
  \<open>queue_object\<close> is Python's \<open>queue.PriorityQueue\<close> holding the tuples
  \<open>(priority, task)\<close>: a list kept as a binary heap by the functions \<open>heappush\<close>
  and \<open>heappop\<close> of the standard module \<open>heapq\<close>, which are modelled as they are
  written. Priorities are Python integers and a \<open>datetime\<close> is an integer time stamp.

  The class of the tasks is not among the sources, and the queue says nothing about it
  but that \<open>heapq\<close> compares the tuples. The task type is therefore a parameter with
  a relation \<open><\<close> of which no property is assumed. Python compares two tuples at
  the first position where they are not equal: \<open>(p1, t1) < (p2, t2)\<close> is \<open>p1 < p2\<close>
  when the priorities differ and \<open>t1 < t2\<close> otherwise, two tasks that are equal for
  \<open>==\<close> (equality here) being below each other in neither direction. A task class
  that defines no \<open><\<close> makes the comparison of two entries of one priority raise
  \<open>TypeError\<close>; such tasks are outside the model.
\<close>

type_synonym 'task PriorityQueue = "(int \<times> 'task) list"

definition item_less :: "int \<times> 'task::ord \<Rightarrow> int \<times> 'task \<Rightarrow> bool" where
  "item_less x y =
     (if fst x \<noteq> fst y then fst x < fst y
      else if snd x \<noteq> snd y then snd x < snd y
      else False)"

text \<open>
  The loop of \<open>_siftdown(heap, startpos, pos)\<close>: \<open>newitem\<close> moves up from \<open>pos\<close>
  while it is below its parent, the parents moving down.
\<close>

function siftdown_loop :: "('task::ord) PriorityQueue \<Rightarrow> nat \<Rightarrow> nat \<Rightarrow> int \<times> 'task
    \<Rightarrow> 'task PriorityQueue" where
  "siftdown_loop heap startpos pos newitem =
     (if pos > startpos
      then (if item_less newitem (heap ! ((pos - 1) div 2))
            then siftdown_loop (heap[pos := heap ! ((pos - 1) div 2)]) startpos ((pos - 1) div 2) newitem
            else heap[pos := newitem])
      else heap[pos := newitem])"
  by pat_completeness auto
termination
  by (relation "measure (\<lambda>(heap, startpos, pos, newitem). pos)") auto

declare siftdown_loop.simps [simp del]

definition siftdown :: "('task::ord) PriorityQueue \<Rightarrow> nat \<Rightarrow> nat \<Rightarrow> 'task PriorityQueue" where
  "siftdown heap startpos pos = siftdown_loop heap startpos pos (heap ! pos)"

text \<open>
  The loop of \<open>_siftup(heap, pos)\<close>: the smaller child moves up until a leaf is
  reached (the right child when the left one is not below it). It returns the heap and
  the position of the leaf.
\<close>

function siftup_loop :: "('task::ord) PriorityQueue \<Rightarrow> nat \<Rightarrow> nat \<Rightarrow> 'task PriorityQueue \<times> nat" where
  "siftup_loop heap pos endpos =
     (if 2 * pos + 1 < endpos
      then (let childpos =
                  (if 2 * pos + 2 < endpos \<and> \<not> item_less (heap ! (2 * pos + 1)) (heap ! (2 * pos + 2))
                   then 2 * pos + 2 else 2 * pos + 1)
            in siftup_loop (heap[pos := heap ! childpos]) childpos endpos)
      else (heap, pos))"
  by pat_completeness auto
termination
  by (relation "measure (\<lambda>(heap, pos, endpos). endpos - pos)") (auto simp: Let_def)

declare siftup_loop.simps [simp del]

definition siftup :: "('task::ord) PriorityQueue \<Rightarrow> nat \<Rightarrow> 'task PriorityQueue" where
  "siftup heap pos =
     (case siftup_loop heap pos (length heap) of
        (heap1, pos1) \<Rightarrow> siftdown (heap1[pos1 := heap ! pos]) pos pos1)"

definition heappush :: "('task::ord) PriorityQueue \<Rightarrow> int \<times> 'task \<Rightarrow> 'task PriorityQueue" where
  "heappush heap item = siftdown (heap @ [item]) 0 (length heap)"

text \<open>\<open>heappop\<close> of a heap that is not empty: the item returned and the heap left.\<close>

definition heappop :: "('task::ord) PriorityQueue \<Rightarrow> (int \<times> 'task) \<times> 'task PriorityQueue" where
  "heappop heap =
     (let lastelt = last heap; heap1 = butlast heap
      in if heap1 \<noteq> [] then (heap1 ! 0, siftup (heap1[0 := lastelt]) 0)
         else (lastelt, heap1))"

text \<open>
  The methods of \<open>PriorityQueue\<close> the backend calls: \<open>put(item)\<close>, \<open>qsize()\<close> and
  \<open>get(block=False)\<close>, which raises \<open>Empty\<close> on an empty queue.
\<close>

definition pq_put :: "('task::ord) PriorityQueue \<Rightarrow> int \<times> 'task \<Rightarrow> 'task PriorityQueue" where
  "pq_put q item = heappush q item"

definition qsize :: "'task PriorityQueue \<Rightarrow> nat" where
  "qsize q = length q"

definition pq_get :: "('task::ord) PriorityQueue
    \<Rightarrow> (error + (int \<times> 'task)) \<times> 'task PriorityQueue" where
  "pq_get q =
     (if q = [] then (Inl Empty, q)
      else (case heappop q of (item, q1) \<Rightarrow> (Inr item, q1)))"

record 'task QueueBackend =
  queue_object :: "'task PriorityQueue"
  schedule_list :: "(int \<times> 'task) list"

definition init_queue :: "'task QueueBackend" where
  "init_queue = \<lparr>queue_object = [], schedule_list = []\<rparr>"

definition put :: "('task::ord) QueueBackend \<Rightarrow> 'task \<Rightarrow> int \<Rightarrow> int option \<Rightarrow> 'task QueueBackend" where
  "put self task priority schedule_time =
     (case schedule_time of
        None \<Rightarrow> self\<lparr>queue_object := pq_put (queue_object self) (priority, task)\<rparr>
      | Some t \<Rightarrow> self\<lparr>schedule_list := schedule_list self @ [(t, task)]\<rparr>)"

text \<open>
  The first loop of \<open>get\<close>: it walks the schedule list with a running index, puts
  every entry that is due at priority 1 and records the entry's index.
\<close>

fun promote_loop :: "int \<Rightarrow> (int \<times> 'task) list \<Rightarrow> nat \<Rightarrow> ('task::ord) QueueBackend \<times> nat list
    \<Rightarrow> 'task QueueBackend \<times> nat list" where
  "promote_loop now [] index (self, removed_indexes) = (self, removed_indexes)"
| "promote_loop now ((schedule_time, task) # rest) index (self, removed_indexes) =
     (if schedule_time \<le> now
      then promote_loop now rest (index + 1) (put self task 1 None, removed_indexes @ [index])
      else promote_loop now rest (index + 1) (self, removed_indexes))"

text \<open>
  The list comprehension
  \<open>[x for idx, x in enumerate(self.schedule_list) if idx not in removed_indexes]\<close>.
\<close>

definition drop_indexes :: "nat list \<Rightarrow> 'a list \<Rightarrow> 'a list" where
  "drop_indexes removed_indexes xs =
     map snd (filter (\<lambda>(idx, x). idx \<notin> set removed_indexes) (enumerate 0 xs))"

definition promote :: "('task::ord) QueueBackend \<Rightarrow> int \<Rightarrow> 'task QueueBackend" where
  "promote self now =
     (case promote_loop now (schedule_list self) 0 (self, []) of
        (self1, removed_indexes) \<Rightarrow>
          self1\<lparr>schedule_list := drop_indexes removed_indexes (schedule_list self1)\<rparr>)"

text \<open>
  \<open>get\<close> reads the clock (\<open>now\<close>, an argument here), promotes, and pops the priority
  queue without blocking. The promotion has happened when \<open>Empty\<close> is raised, so the
  state is returned in both cases.
\<close>

definition get :: "('task::ord) QueueBackend \<Rightarrow> int \<Rightarrow> (error + 'task) \<times> 'task QueueBackend" where
  "get self now =
     (let self1 = promote self now in
      case pq_get (queue_object self1) of
        (Inl e, q) \<Rightarrow> (Inl e, self1\<lparr>queue_object := q\<rparr>)
      | (Inr (_, task), q) \<Rightarrow> (Inr task, self1\<lparr>queue_object := q\<rparr>))"

definition size_queue :: "'task QueueBackend \<Rightarrow> nat" where
  "size_queue self = qsize (queue_object self) + length (schedule_list self)"

text \<open>Interleavings of \<open>put\<close> and \<open>get\<close>, the clock reading of each \<open>get\<close> given.\<close>

datatype 'task queue_op = Put 'task int "int option" | Get int

fun run_ops :: "('task::ord) QueueBackend \<Rightarrow> 'task queue_op list \<Rightarrow> 'task QueueBackend" where
  "run_ops self [] = self"
| "run_ops self (Put task priority schedule_time # ops) =
     run_ops (put self task priority schedule_time) ops"
| "run_ops self (Get now # ops) = run_ops (snd (get self now)) ops"

fun count_puts :: "'task queue_op list \<Rightarrow> nat" where
  "count_puts [] = 0"
| "count_puts (Put task priority schedule_time # ops) = Suc (count_puts ops)"
| "count_puts (Get now # ops) = count_puts ops"

fun count_successful_gets :: "('task::ord) QueueBackend \<Rightarrow> 'task queue_op list \<Rightarrow> nat" where
  "count_successful_gets self [] = 0"
| "count_successful_gets self (Put task priority schedule_time # ops) =
     count_successful_gets (put self task priority schedule_time) ops"
| "count_successful_gets self (Get now # ops) =
     (case get self now of
        (Inl e, self1) \<Rightarrow> count_successful_gets self1 ops
      | (Inr task, self1) \<Rightarrow> Suc (count_successful_gets self1 ops))"

text \<open>What the \<open>get\<close> calls of an interleaving return, in order.\<close>

fun outputs :: "('task::ord) QueueBackend \<Rightarrow> 'task queue_op list \<Rightarrow> (error + 'task) list" where
  "outputs self [] = []"
| "outputs self (Put task priority schedule_time # ops) =
     outputs (put self task priority schedule_time) ops"
| "outputs self (Get now # ops) = fst (get self now) # outputs (snd (get self now)) ops"

text \<open>The tasks a queue holds, ready or scheduled.\<close>

definition queued_tasks :: "'task QueueBackend \<Rightarrow> 'task set" where
  "queued_tasks self = snd ` set (queue_object self) \<union> snd ` set (schedule_list self)"

text \<open>An operation that is neither a \<open>put\<close> of \<open>task\<close> nor a \<open>get\<close> at or after \<open>t\<close>.\<close>

fun early_op :: "'task \<Rightarrow> int \<Rightarrow> 'task queue_op \<Rightarrow> bool" where
  "early_op task t (Put x priority schedule_time) = (x \<noteq> task)"
| "early_op task t (Get now) = (now < t)"


text \<open>
  The state of a task that waits for time \<open>t\<close>: no ready entry holds it, and every scheduled
  entry of it is due at \<open>t\<close> or later.
\<close>

definition waits :: "'task \<Rightarrow> int \<Rightarrow> 'task QueueBackend \<Rightarrow> bool" where
  "waits task t self =
     (task \<notin> snd ` set (queue_object self) \<and>
      (\<forall>e \<in> set (schedule_list self). snd e = task \<longrightarrow> t \<le> fst e))"

text \<open>
  An example of a task class, for the evaluations below: tasks with a name and a
  priority that are compared by their priority alone, the name playing no part, so that
  two such tasks of one priority are below each other in neither direction. The numbers
  are the other example, tasks that are ordered themselves.
\<close>

datatype ptask = PTask string int

fun ptask_priority :: "ptask \<Rightarrow> int" where
  "ptask_priority (PTask name priority) = priority"

instantiation ptask :: ord
begin

definition less_eq_ptask :: "ptask \<Rightarrow> ptask \<Rightarrow> bool" where
  "less_eq_ptask a b = (ptask_priority a \<le> ptask_priority b)"

definition less_ptask :: "ptask \<Rightarrow> ptask \<Rightarrow> bool" where
  "less_ptask a b = (ptask_priority a < ptask_priority b)"

instance ..

end

section \<open>Header merging (grab/util/http.py)\<close>

text \<open>
  \<open>hdr1\<close> is either a mutable mapping or a sequence of pairs. A Python \<open>dict\<close> is an
  association list with distinct keys in insertion order: \<open>d[key] = val\<close> replaces the value
  in place when the key is there and appends the pair otherwise, which is \<open>AList.update\<close>.
\<close>

datatype 'v headers = HMapping "(string \<times> 'v) list" | HSequence "(string \<times> 'v) list"

text \<open>The loop of the mapping branch, over \<open>hdr2.items()\<close>.\<close>

fun merge_mapping :: "(string \<times> 'v) list \<Rightarrow> (string \<times> 'v) list \<Rightarrow> bool \<Rightarrow> (string \<times> 'v) list" where
  "merge_mapping hdr1 [] replace = hdr1"
| "merge_mapping hdr1 ((key, val) # items) replace =
     (if replace \<or> map_of hdr1 key = None
      then merge_mapping (AList.update key val hdr1) items replace
      else merge_mapping hdr1 items replace)"

text \<open>
  The two loops of the sequence branch. The first walks \<open>hdr1\<close> and builds \<open>ret\<close> and
  \<open>hdr1_keys\<close>; the second walks \<open>hdr2.items()\<close> and extends \<open>ret\<close>.
\<close>

fun merge_sequence_loop1 :: "(string \<times> 'v) list \<Rightarrow> string set \<Rightarrow> bool
    \<Rightarrow> (string \<times> 'v) list \<times> string set \<Rightarrow> (string \<times> 'v) list \<times> string set" where
  "merge_sequence_loop1 [] hdr2_keys replace (ret, hdr1_keys) = (ret, hdr1_keys)"
| "merge_sequence_loop1 ((key, val) # rest) hdr2_keys replace (ret, hdr1_keys) =
     (if \<not> replace \<or> key \<notin> hdr2_keys
      then merge_sequence_loop1 rest hdr2_keys replace (ret @ [(key, val)], insert key hdr1_keys)
      else merge_sequence_loop1 rest hdr2_keys replace (ret, hdr1_keys))"

fun merge_sequence_loop2 :: "(string \<times> 'v) list \<Rightarrow> string set \<Rightarrow> bool
    \<Rightarrow> (string \<times> 'v) list \<Rightarrow> (string \<times> 'v) list" where
  "merge_sequence_loop2 [] hdr1_keys replace ret = ret"
| "merge_sequence_loop2 ((key, val) # items) hdr1_keys replace ret =
     (if replace \<or> key \<notin> hdr1_keys
      then merge_sequence_loop2 items hdr1_keys replace (ret @ [(key, val)])
      else merge_sequence_loop2 items hdr1_keys replace ret)"

definition merge_sequence :: "(string \<times> 'v) list \<Rightarrow> (string \<times> 'v) list \<Rightarrow> bool \<Rightarrow> (string \<times> 'v) list" where
  "merge_sequence hdr1 hdr2 replace =
     (case merge_sequence_loop1 hdr1 (set (map fst hdr2)) replace ([], {}) of
        (ret, hdr1_keys) \<Rightarrow> merge_sequence_loop2 hdr2 hdr1_keys replace ret)"

text \<open>
  \<open>merge_with_dict\<close> returns the value the call returns (\<open>None\<close> is Python's \<open>None\<close>:
  neither branch has a \<open>return\<close> statement) and \<open>hdr1\<close> as the call leaves it. In the
  sequence branch the list \<open>ret\<close> is built and then dropped when the function ends.
\<close>

definition merge_with_dict :: "'v headers \<Rightarrow> (string \<times> 'v) list \<Rightarrow> bool
    \<Rightarrow> (string \<times> 'v) list option \<times> 'v headers" where
  "merge_with_dict hdr1 hdr2 replace =
     (case hdr1 of
        HMapping m \<Rightarrow> (None, HMapping (merge_mapping m hdr2 replace))
      | HSequence s \<Rightarrow> (let ret = merge_sequence s hdr2 replace in (None, HSequence s)))"

section \<open>The task dispatcher (grab/spider/service/task\_dispatcher.py)\<close>

text \<open>
  The dispatcher looks at the class of a result only. A class is its name and the names of
  the classes it inherits from; \<open>isinstance(x, C)\<close> holds when \<open>C\<close> is one of them.
\<close>

record pyclass =
  class_name :: string
  bases :: "string list"

definition isinstance :: "pyclass \<Rightarrow> string \<Rightarrow> bool" where
  "isinstance c name = (name = class_name c \<or> name \<in> set (bases c))"

text \<open>
  A result is a \<open>Task\<close>, \<open>None\<close>, a \<open>dict\<close>, or an instance of any other class (an
  exception, or whatever else a service sent). The values stored in a \<open>dict\<close> and in
  \<open>meta\<close> are of a type \<open>'v\<close> the dispatcher only hands on.
\<close>

datatype ('task, 'v) result =
    ResTask 'task
  | ResNone
  | ResObject pyclass
  | ResDict "(string \<times> 'v) list"

text \<open>
  The spider, its task queue, statistics, parser service and fatal error queue are other
  modules. Each call the dispatcher makes on them is recorded as an event; the calls whose
  result the dispatcher uses are the fields of \<open>spider\<close>.
\<close>

datatype ('task, 'v) event =
    AddTask 'task
  | StatInc string
  | ProcessParserError string "'task option" 'v
  | FatalErrorQueuePut 'v
  | LogNetworkResultStats "(string \<times> 'v) list" "'task option"
  | ParserInputQueuePut "(string \<times> 'v) list" 'task
  | LogFailedNetworkResult "(string \<times> 'v) list"

record ('task, 'v) spider =
  find_task_handler :: "'task \<Rightarrow> error + string option"
  task_clone :: "'task \<Rightarrow> 'task"
  task_raw :: "'task \<Rightarrow> bool"
  setup_grab_config :: "'task \<Rightarrow> 'v \<Rightarrow> 'task"
  truthy :: "'v \<Rightarrow> bool"
  response_code :: "'v \<Rightarrow> int"
  is_valid_network_response_code :: "int \<Rightarrow> 'task \<Rightarrow> bool"
  network_try_limit :: int

text \<open>
  \<open>find_task_handler\<close> returns the handler's \<open>__name__\<close> (\<open>None\<close> when the handler has
  none) or raises; \<open>task_raw\<close> is the truth value of \<open>task.get("raw")\<close>; \<open>response_code\<close>
  reads \<open>.doc.code\<close> of the value stored under \<open>"grab"\<close>.
\<close>

text \<open>\<open>result.__class__.__name__.replace("_", "-")\<close>\<close>

definition error_code :: "pyclass \<Rightarrow> string" where
  "error_code c = map (\<lambda>ch. if ch = CHR ''_'' then CHR ''-'' else ch) (class_name c)"

text \<open>The validity test of \<open>process_network_result\<close>; a missing key raises \<open>KeyError\<close>.\<close>

definition is_valid_result :: "('task, 'v) spider \<Rightarrow> (string \<times> 'v) list \<Rightarrow> 'task \<Rightarrow> error + bool" where
  "is_valid_result sp result task =
     (if task_raw sp task then Inr True
      else (case map_of result ''ok'' of
              None \<Rightarrow> Inl (KeyError ''ok'')
            | Some ok \<Rightarrow>
                if truthy sp ok
                then (case map_of result ''grab'' of
                        None \<Rightarrow> Inl (KeyError ''grab'')
                      | Some g \<Rightarrow> Inr (is_valid_network_response_code sp (response_code sp g) task))
                else Inr False))"

text \<open>
  A function of the dispatcher returns the calls it made, in order, and the exception it
  raised, if any.
\<close>

definition process_network_result :: "('task, 'v) spider \<Rightarrow> (string \<times> 'v) list \<Rightarrow> 'task option
    \<Rightarrow> ('task, 'v) event list \<times> error option" where
  "process_network_result sp result task =
     (case task of
        None \<Rightarrow> ([LogNetworkResultStats result None], Some (AttributeError ''get''))
      | Some t \<Rightarrow>
          (case is_valid_result sp result t of
             Inl e \<Rightarrow> ([LogNetworkResultStats result task], Some e)
           | Inr True \<Rightarrow>
               ([LogNetworkResultStats result task, ParserInputQueuePut result t,
                 StatInc ''spider:request''], None)
           | Inr False \<Rightarrow>
               (if network_try_limit sp > 0
                then (case map_of result ''grab_config_backup'' of
                        None \<Rightarrow>
                          ([LogNetworkResultStats result task, LogFailedNetworkResult result],
                           Some (KeyError ''grab_config_backup''))
                      | Some backup \<Rightarrow>
                          ([LogNetworkResultStats result task, LogFailedNetworkResult result,
                            AddTask (setup_grab_config sp t backup), StatInc ''spider:request''],
                           None))
                else ([LogNetworkResultStats result task, LogFailedNetworkResult result,
                       StatInc ''spider:request''], None))))"

text \<open>
  The handler name of the exception branch: \<open>getattr(handler, "__name__", "NONE")\<close> for a
  task, \<open>"NA"\<close> without one.
\<close>

definition handler_name :: "('task, 'v) spider \<Rightarrow> 'task option \<Rightarrow> error + string" where
  "handler_name sp task =
     (case task of
        Some t \<Rightarrow>
          (case find_task_handler sp t of
             Inl e \<Rightarrow> Inl e
           | Inr None \<Rightarrow> Inr ''NONE''
           | Inr (Some name) \<Rightarrow> Inr name)
      | None \<Rightarrow> Inr ''NA'')"

definition process_service_result :: "('task, 'v) spider \<Rightarrow> ('task, 'v) result \<Rightarrow> 'task option
    \<Rightarrow> (string \<times> 'v) list option \<Rightarrow> ('task, 'v) event list \<times> error option" where
  "process_service_result sp result task meta0 =
     (let meta = (case meta0 of None \<Rightarrow> [] | Some m \<Rightarrow> m) in
      case result of
        ResTask new_task \<Rightarrow> ([AddTask new_task], None)
      | ResNone \<Rightarrow> ([], None)
      | ResObject c \<Rightarrow>
          if isinstance c ''ResponseNotValid'' then
            (case task of
               None \<Rightarrow> ([], Some (AttributeError ''clone''))
             | Some t \<Rightarrow>
                 ([AddTask (task_clone sp t), StatInc (''integrity:'' @ error_code c)], None))
          else if isinstance c ''Exception'' then
            (case handler_name sp task of
               Inl e \<Rightarrow> ([], Some e)
             | Inr name \<Rightarrow>
                 (case map_of meta ''exc_info'' of
                    None \<Rightarrow> ([], Some (KeyError ''exc_info''))
                  | Some exc_info \<Rightarrow>
                      if isinstance c ''FatalError''
                      then ([ProcessParserError name task exc_info, FatalErrorQueuePut exc_info], None)
                      else ([ProcessParserError name task exc_info], None)))
          else ([], Some SpiderError)
      | ResDict d \<Rightarrow>
          if ''grab'' \<in> fst ` set d then process_network_result sp d task
          else ([], Some SpiderError))"

text \<open>A spider to run the dispatcher on: tasks and values are numbers.\<close>

definition demo_spider :: "(nat, nat) spider" where
  "demo_spider =
     \<lparr>find_task_handler = (\<lambda>t. Inr (Some ''task_page'')), task_clone = (\<lambda>t. t + 100),
      task_raw = (\<lambda>t. False), setup_grab_config = (\<lambda>t v. t), truthy = (\<lambda>v. v \<noteq> 0),
      response_code = (\<lambda>v. 200), is_valid_network_response_code = (\<lambda>code t. code = 200),
      network_try_limit = 3\<rparr>"

section \<open>The HTTP client (grab/grab.py)\<close>

subsection \<open>Values, cookies, requests and documents\<close>

text \<open>
  The values of request options and of the client configuration: \<open>None\<close>, booleans,
  integers, strings and string-to-string mappings (cookies, headers). \<open>is_true\<close> is
  Python's truth value.
\<close>

datatype option_value =
    CfgNone
  | CfgBool bool
  | CfgInt int
  | CfgStr string
  | CfgMap "(string \<times> string) list"

fun is_true :: "option_value \<Rightarrow> bool" where
  "is_true CfgNone = False"
| "is_true (CfgBool b) = b"
| "is_true (CfgInt n) = (n \<noteq> 0)"
| "is_true (CfgStr s) = (s \<noteq> [])"
| "is_true (CfgMap m) = (m \<noteq> [])"

text \<open>\<open>d[key]\<close> on a \<open>dict\<close>: a missing key raises \<open>KeyError\<close>.\<close>

definition getitem :: "(string \<times> 'v) list \<Rightarrow> string \<Rightarrow> error + 'v" where
  "getitem d key = (case map_of d key of None \<Rightarrow> Inl (KeyError key) | Some v \<Rightarrow> Inr v)"

record cookie =
  cookie_name :: string
  cookie_value :: string
  cookie_domain :: string
  cookie_path :: string
  cookie_expires :: "int option"
  cookie_secure :: bool
  cookie_http_only :: bool

text \<open>
  The cookie jar is \<open>http.cookiejar.CookieJar\<close>: its cookies are keyed by domain, path and
  name, and \<open>set_cookie\<close> replaces the cookie that has the same key. The jar is the list
  of its cookies; \<open>list(jar)\<close> is that list.
\<close>

type_synonym CookieJar = "cookie list"

definition cookie_key :: "cookie \<Rightarrow> string \<times> string \<times> string" where
  "cookie_key c = (cookie_domain c, cookie_path c, cookie_name c)"

fun set_cookie :: "CookieJar \<Rightarrow> cookie \<Rightarrow> CookieJar" where
  "set_cookie [] c = [c]"
| "set_cookie (x # jar) c =
     (if cookie_key x = cookie_key c then c # jar else x # set_cookie jar c)"

text \<open>
  Modelled from the spec: \<open>grab.util.cookies\<close> (\<open>build_jar\<close>, \<open>create_cookie\<close>) is not
  among the sources. The spec has the jar rebuilt from a flat list of cookie records
  by \<open>build_jar(list)\<close>, and a cookie created without an explicit domain take the host of
  the request URL. The fields the spec gives no default for are fixed here (path \<open>/\<close>,
  no expiry, not secure); no property below depends on them.
\<close>

definition build_jar :: "cookie list \<Rightarrow> CookieJar" where
  "build_jar items = fold (\<lambda>c jar. set_cookie jar c) items []"

definition create_cookie :: "string \<Rightarrow> string \<Rightarrow> string \<Rightarrow> cookie" where
  "create_cookie name val domain =
     \<lparr>cookie_name = name, cookie_value = val, cookie_domain = domain, cookie_path = ''/'',
      cookie_expires = None, cookie_secure = False, cookie_http_only = False\<rparr>"

text \<open>
  Modelled from the spec: the classes \<open>Request\<close> (\<open>grab.request\<close>) and \<open>Document\<close>
  (\<open>grab.document\<close>) are not among the sources. A request carries the options of the
  spec's list of request keys, which is \<open>Request.init_keys\<close>; \<open>follow_location\<close> is a
  boolean defaulting to true and \<open>redirect_limit\<close> a non-negative integer defaulting to a
  value of the system, a parameter here. \<open>Request.create_from_mapping\<close> reads the options
  from a mapping that has every key, \<open>None\<close> standing for an option that is not set.
\<close>

record Request =
  req_url :: string
  req_method :: string
  req_headers :: option_value
  req_body :: option_value
  req_cookies :: "(string \<times> string) list"
  req_proxy :: option_value
  req_proxy_type :: option_value
  req_proxy_userpwd :: option_value
  follow_location :: bool
  redirect_limit :: nat
  req_timeout :: option_value
  req_connect_timeout :: option_value
  req_user_agent :: option_value

definition init_keys :: "string list" where
  "init_keys = [''url'', ''method'', ''headers'', ''body'', ''cookies'', ''proxy'', ''proxy_type'',
     ''proxy_userpwd'', ''follow_location'', ''redirect_limit'', ''timeout'', ''connect_timeout'',
     ''user_agent'']"

definition option_of :: "(string \<times> option_value) list \<Rightarrow> string \<Rightarrow> option_value" where
  "option_of cfg key = (case map_of cfg key of None \<Rightarrow> CfgNone | Some v \<Rightarrow> v)"

definition create_from_mapping :: "nat \<Rightarrow> (string \<times> option_value) list \<Rightarrow> Request" where
  "create_from_mapping default_limit cfg =
     \<lparr>req_url = (case option_of cfg ''url'' of CfgStr u \<Rightarrow> u | _ \<Rightarrow> []),
      req_method = (case option_of cfg ''method'' of CfgStr m \<Rightarrow> m | _ \<Rightarrow> ''GET''),
      req_headers = option_of cfg ''headers'',
      req_body = option_of cfg ''body'',
      req_cookies = (case option_of cfg ''cookies'' of CfgMap m \<Rightarrow> m | _ \<Rightarrow> []),
      req_proxy = option_of cfg ''proxy'',
      req_proxy_type = option_of cfg ''proxy_type'',
      req_proxy_userpwd = option_of cfg ''proxy_userpwd'',
      follow_location =
        (if option_of cfg ''follow_location'' = CfgNone then True
         else is_true (option_of cfg ''follow_location'')),
      redirect_limit = (case option_of cfg ''redirect_limit'' of CfgInt n \<Rightarrow> nat n | _ \<Rightarrow> default_limit),
      req_timeout = option_of cfg ''timeout'',
      req_connect_timeout = option_of cfg ''connect_timeout'',
      req_user_agent = option_of cfg ''user_agent''\<rparr>"

text \<open>
  A document has a status code, headers, a body and the cookies of its \<open>Set-Cookie\<close>
  headers. \<open>doc_headers\<close> is \<open>None\<close> or the lookup \<open>doc.headers[name]\<close>, which gives
  \<open>None\<close> for a header that is absent.
\<close>

record Document =
  doc_url :: string
  code :: int
  doc_headers :: "(string \<Rightarrow> string option) option"
  body :: string
  doc_cookies :: "cookie list"

subsection \<open>The client and what it calls\<close>

text \<open>
  The transport and \<open>urllib.parse\<close> are outside the sources; their operations are the
  fields of \<open>env\<close>. \<open>transport_request\<close> performs the network exchange for a request and
  the jar, changes the state of the transport and may raise; \<open>prepare_response\<close> builds
  the document from that state or raises; \<open>wrap_transport_error\<close> is what the context
  manager of that name makes of an exception raised inside it. \<open>hostname url\<close> is
  \<open>urlsplit(url).hostname\<close>.
\<close>

record 's env =
  reset :: "'s \<Rightarrow> 's"
  transport_request :: "Request \<Rightarrow> CookieJar \<Rightarrow> 's \<Rightarrow> error option \<times> 's"
  prepare_response :: "Request \<Rightarrow> 's \<Rightarrow> error + Document"
  wrap_transport_error :: "error \<Rightarrow> error"
  urljoin :: "string \<Rightarrow> string \<Rightarrow> string"
  hostname :: "string \<Rightarrow> string option"
  default_redirect_limit :: nat

text \<open>
  The client has the slots \<open>config\<close>, \<open>transport\<close> and \<open>cookies\<close>. Here each slot holds
  the object itself: the configuration mapping, the state of the transport, the jar.
\<close>

record 's Grab =
  config :: "(string \<times> option_value) list"
  transport :: 's
  cookies :: CookieJar

definition default_grab_config :: "(string \<times> option_value) list" where
  "default_grab_config = [(''reuse_cookies'', CfgBool True)]"

text \<open>The two loops of \<open>merge_request_configs\<close>.\<close>

fun merge_check_loop :: "(string \<times> option_value) list \<Rightarrow> (string \<times> option_value) list
    \<Rightarrow> error + (string \<times> option_value) list" where
  "merge_check_loop [] cfg = Inr cfg"
| "merge_check_loop ((key, val) # items) cfg =
     (if key \<notin> set init_keys
      then Inl (GrabMisuseError (''Invalid request parameter: '' @ key))
      else merge_check_loop items (AList.update key val cfg))"

fun merge_fill_loop :: "string list \<Rightarrow> (string \<times> option_value) list \<Rightarrow> (string \<times> option_value) list" where
  "merge_fill_loop [] cfg = cfg"
| "merge_fill_loop (key # keys) cfg =
     (if map_of cfg key = None
      then merge_fill_loop keys (AList.update key CfgNone cfg)
      else merge_fill_loop keys cfg)"

definition merge_request_configs :: "(string \<times> option_value) list
    \<Rightarrow> error + (string \<times> option_value) list" where
  "merge_request_configs request_config =
     (case merge_check_loop request_config [] of
        Inl e \<Rightarrow> Inl e
      | Inr cfg \<Rightarrow> Inr (merge_fill_loop init_keys cfg))"

definition update_session_cookies :: "'s env \<Rightarrow> 's Grab \<Rightarrow> (string \<times> string) list \<Rightarrow> string \<Rightarrow> 's Grab" where
  "update_session_cookies env self cookie_items request_url =
     (case hostname env request_url of
        None \<Rightarrow> self
      | Some request_host \<Rightarrow>
          if request_host \<noteq> [] \<and> cookie_items \<noteq> []
          then self\<lparr>cookies :=
                 fold (\<lambda>(name, val) jar. set_cookie jar (create_cookie name val request_host))
                   cookie_items (cookies self)\<rparr>
          else self)"

text \<open>
  The part of \<open>prepare_request\<close> between the reset of the transport and the creation of
  the request: the merged options with the defaults of the method and of
  \<open>follow_location\<close>.
\<close>

definition resolve_config :: "(string \<times> option_value) list \<Rightarrow> error + (string \<times> option_value) list" where
  "resolve_config request_config =
     (case merge_request_configs request_config of
        Inl e \<Rightarrow> Inl e
      | Inr cfg \<Rightarrow>
          (case getitem cfg ''url'' of
             Inl e \<Rightarrow> Inl e
           | Inr u \<Rightarrow>
               if u = CfgNone then Inl (GrabMisuseError ''Request URL must be set'')
               else
                 (case getitem cfg ''method'' of
                    Inl e \<Rightarrow> Inl e
                  | Inr m \<Rightarrow>
                      (let cfg1 = (if \<not> is_true m then AList.update ''method'' (CfgStr ''GET'') cfg else cfg)
                       in case getitem cfg1 ''follow_location'' of
                            Inl e \<Rightarrow> Inl e
                          | Inr f \<Rightarrow>
                              if f = CfgNone
                              then Inr (AList.update ''follow_location'' (CfgBool True) cfg1)
                              else Inr cfg1))))"

text \<open>
  \<open>prepare_request\<close> returns the request or the exception, and the client as the call
  leaves it: the transport has been reset when the options are rejected.
\<close>

definition prepare_request :: "'s env \<Rightarrow> 's Grab \<Rightarrow> (string \<times> option_value) list
    \<Rightarrow> (error + Request) \<times> 's Grab" where
  "prepare_request env self request_config =
     (let self1 = self\<lparr>transport := reset env (transport self)\<rparr> in
      case resolve_config request_config of
        Inl e \<Rightarrow> (Inl e, self1)
      | Inr cfg \<Rightarrow>
          (let req = create_from_mapping (default_redirect_limit env) cfg
           in (Inr req, update_session_cookies env self1 (req_cookies req) (req_url req))))"

definition find_redirect_url :: "Document \<Rightarrow> error + string option" where
  "find_redirect_url doc =
     (case doc_headers doc of
        None \<Rightarrow> Inl AssertionError
      | Some headers \<Rightarrow>
          if code doc \<in> {301, 302, 303, 307, 308}
          then (case headers ''Location'' of
                  None \<Rightarrow> Inr None
                | Some location \<Rightarrow> if location \<noteq> [] then Inr (Some location) else Inr None)
          else Inr None)"

text \<open>
  \<open>process_request_result\<close> runs inside \<open>wrap_transport_error\<close>, so an exception it
  raises comes out wrapped.
\<close>

definition process_request_result :: "'s env \<Rightarrow> 's Grab \<Rightarrow> Request \<Rightarrow> (error + Document) \<times> 's Grab" where
  "process_request_result env self req =
     (case prepare_response env req (transport self) of
        Inl e \<Rightarrow> (Inl (wrap_transport_error env e), self)
      | Inr doc \<Rightarrow>
          (case getitem (config self) ''reuse_cookies'' of
             Inl e \<Rightarrow> (Inl (wrap_transport_error env e), self)
           | Inr reuse \<Rightarrow>
               if is_true reuse
               then (Inr doc, self\<lparr>cookies := fold (\<lambda>item jar. set_cookie jar item) (doc_cookies doc) (cookies self)\<rparr>)
               else (Inr doc, self)))"

text \<open>
  One network exchange of the loop of \<open>request\<close>: \<open>transport.request\<close> and then
  \<open>process_request_result\<close>.
\<close>

definition exchange :: "'s env \<Rightarrow> 's Grab \<Rightarrow> Request \<Rightarrow> (error + Document) \<times> 's Grab" where
  "exchange env self req =
     (case transport_request env req (cookies self) (transport self) of
        (Some e, ts) \<Rightarrow> (Inl e, self\<lparr>transport := ts\<rparr>)
      | (None, ts) \<Rightarrow> process_request_result env (self\<lparr>transport := ts\<rparr>) req)"

text \<open>\<open>request_kwargs["url"] = urljoin(req.url, redir_url)\<close>\<close>

definition redirect_kwargs :: "'s env \<Rightarrow> (string \<times> option_value) list \<Rightarrow> Request \<Rightarrow> string
    \<Rightarrow> (string \<times> option_value) list" where
  "redirect_kwargs env request_kwargs req redir_url =
     AList.update ''url'' (CfgStr (urljoin env (req_url req) redir_url)) request_kwargs"

subsection \<open>The redirect loop\<close>

text \<open>
  The redirect limit of a request that \<open>prepare_request\<close> builds from the keyword
  options: the value last given for \<open>redirect_limit\<close>, or the default.
\<close>

definition kwargs_limit :: "'s env \<Rightarrow> (string \<times> option_value) list \<Rightarrow> nat" where
  "kwargs_limit env request_kwargs =
     (case map_of (rev request_kwargs) ''redirect_limit'' of
        Some (CfgInt n) \<Rightarrow> nat n
      | _ \<Rightarrow> default_redirect_limit env)"

lemma merge_check_loop_map_of:
  "merge_check_loop items cfg = Inr cfg' \<Longrightarrow> map_of cfg' = map_of cfg ++ map_of (rev items)"
proof (induction items arbitrary: cfg)
  case Nil
  then show ?case by simp
next
  case (Cons item items)
  obtain key val where item: "item = (key, val)" by (cases item)
  from Cons.prems item have "merge_check_loop items (AList.update key val cfg) = Inr cfg'"
    by (simp split: if_splits)
  from Cons.IH [OF this] have "map_of cfg' = map_of (AList.update key val cfg) ++ map_of (rev items)" .
  then show ?case
    by (auto simp: item update_conv' fun_eq_iff map_add_def split: option.splits)
qed

lemma merge_fill_loop_map_of:
  "map_of (merge_fill_loop keys cfg) k =
     (if k \<in> set keys \<and> map_of cfg k = None then Some CfgNone else map_of cfg k)"
  by (induction keys arbitrary: cfg) (auto simp: update_conv')

lemma map_of_rev_update_other:
  "k' \<noteq> k \<Longrightarrow> map_of (rev (AList.update k v al)) k' = map_of (rev al) k'"
  by (induction al) (auto simp: map_add_def split: option.splits)

lemma resolve_config_other_keys:
  assumes "resolve_config request_config = Inr cfg"
    and "k \<noteq> ''method''" and "k \<noteq> ''follow_location''"
  shows "\<exists>cfg0. merge_request_configs request_config = Inr cfg0 \<and> map_of cfg k = map_of cfg0 k"
proof -
  from assms(1) obtain cfg0 where m: "merge_request_configs request_config = Inr cfg0"
    by (cases "merge_request_configs request_config") (simp_all add: resolve_config_def)
  let ?cfg1 = "AList.update ''method'' (CfgStr ''GET'') cfg0"
  from assms(1) m have "cfg = cfg0 \<or> cfg = ?cfg1
      \<or> cfg = AList.update ''follow_location'' (CfgBool True) cfg0
      \<or> cfg = AList.update ''follow_location'' (CfgBool True) ?cfg1"
    by (auto simp: resolve_config_def Let_def split: sum.splits if_splits)
  with assms(2,3) have "map_of cfg k = map_of cfg0 k"
    by (auto simp: update_conv')
  with m show ?thesis by blast
qed

lemma resolve_config_limit:
  assumes "resolve_config request_config = Inr cfg"
  shows "option_of cfg ''redirect_limit'' =
           (case map_of (rev request_config) ''redirect_limit'' of None \<Rightarrow> CfgNone | Some v \<Rightarrow> v)"
proof -
  from resolve_config_other_keys [OF assms, of "''redirect_limit''"]
  obtain cfg0 where m: "merge_request_configs request_config = Inr cfg0"
    and c: "map_of cfg ''redirect_limit'' = map_of cfg0 ''redirect_limit''"
    by auto
  from m obtain cfg1 where c1: "merge_check_loop request_config [] = Inr cfg1"
    and c0: "cfg0 = merge_fill_loop init_keys cfg1"
    by (cases "merge_check_loop request_config []") (simp_all add: merge_request_configs_def)
  have r: "map_of cfg1 = map_of (rev request_config)"
    using merge_check_loop_map_of [OF c1] by simp
  have i: "''redirect_limit'' \<in> set init_keys" by (simp add: init_keys_def)
  show ?thesis
    unfolding option_of_def c c0 merge_fill_loop_map_of r using i
    by (simp split: option.splits)
qed

lemma prepare_request_limit:
  "prepare_request env self request_config = (Inr req, self') \<Longrightarrow>
     redirect_limit req = kwargs_limit env request_config"
proof -
  assume p: "prepare_request env self request_config = (Inr req, self')"
  then obtain cfg where r: "resolve_config request_config = Inr cfg"
    and q: "req = create_from_mapping (default_redirect_limit env) cfg"
    by (cases "resolve_config request_config") (auto simp: prepare_request_def Let_def)
  show ?thesis
    unfolding q kwargs_limit_def
    by (simp add: create_from_mapping_def resolve_config_limit [OF r] split: option.splits)
qed

lemma kwargs_limit_redirect_kwargs:
  "kwargs_limit env (redirect_kwargs env request_kwargs req redir_url) = kwargs_limit env request_kwargs"
  by (simp add: kwargs_limit_def redirect_kwargs_def map_of_rev_update_other)

text \<open>
  The loop of \<open>request\<close>, without the logging of \<open>log_request\<close>. It returns the
  document or the exception, the client as the call leaves it, and the trace: every
  request handed to the transport with what the exchange gave, in order. The loop ends:
  \<open>redir_count\<close> grows with every redirect followed, and from the second request on the
  limit is the one of the keyword options.
\<close>

type_synonym trace = "(Request \<times> (error + Document)) list"

function request_loop :: "'s env \<Rightarrow> (string \<times> option_value) list \<Rightarrow> Request \<Rightarrow> nat \<Rightarrow> 's Grab
    \<Rightarrow> trace \<Rightarrow> (error + Document) \<times> 's Grab \<times> trace" where
  "request_loop env request_kwargs req redir_count self trace =
     (case exchange env self req of
        (Inl e, self1) \<Rightarrow> (Inl e, self1, trace @ [(req, Inl e)])
      | (Inr doc, self1) \<Rightarrow>
          if follow_location req then
            (case find_redirect_url doc of
               Inl e \<Rightarrow> (Inl e, self1, trace @ [(req, Inr doc)])
             | Inr None \<Rightarrow> (Inr doc, self1, trace @ [(req, Inr doc)])
             | Inr (Some redir_url) \<Rightarrow>
                 if redir_count + 1 > redirect_limit req
                 then (Inl GrabTooManyRedirectsError, self1, trace @ [(req, Inr doc)])
                 else (case prepare_request env self1 (redirect_kwargs env request_kwargs req redir_url) of
                         (Inl e, self2) \<Rightarrow> (Inl e, self2, trace @ [(req, Inr doc)])
                       | (Inr req1, self2) \<Rightarrow>
                           request_loop env (redirect_kwargs env request_kwargs req redir_url) req1
                             (redir_count + 1) self2 (trace @ [(req, Inr doc)])))
          else (Inr doc, self1, trace @ [(req, Inr doc)]))"
  by pat_completeness auto
termination
proof (relation "measure (\<lambda>(env, request_kwargs, req, redir_count, self, trace).
          max (redirect_limit req) (kwargs_limit env request_kwargs) + 1 - redir_count)")
  show "wf (measure (\<lambda>(env :: 's env, request_kwargs, req, redir_count, self :: 's Grab, trace :: trace).
          max (redirect_limit req) (kwargs_limit env request_kwargs) + 1 - redir_count))"
    by simp
next
  fix env :: "'s env" and request_kwargs req redir_count and self :: "'s Grab" and trace :: trace
    and x1 self1 doc r redir_opt redir_url p1 self2 req1
  assume "\<not> redirect_limit req < redir_count + 1"
    and "(p1, self2) = prepare_request env self1 (redirect_kwargs env request_kwargs req redir_url)"
    and "p1 = Inr req1"
  then show "((env, redirect_kwargs env request_kwargs req redir_url, req1, redir_count + 1, self2,
               trace @ [(req, Inr doc)]),
              (env, request_kwargs, req, redir_count, self, trace))
        \<in> measure (\<lambda>(env, request_kwargs, req, redir_count, self, trace).
          max (redirect_limit req) (kwargs_limit env request_kwargs) + 1 - redir_count)"
    using prepare_request_limit [of env self1 "redirect_kwargs env request_kwargs req redir_url" req1 self2]
    by (simp add: kwargs_limit_redirect_kwargs)
qed

declare request_loop.simps [simp del]

text \<open>
  \<open>request\<close> is given a request, a URL or nothing, and the keyword options.
\<close>

datatype url_arg = UrlRequest Request | UrlStr string | UrlNone

text \<open>
  The options \<open>request\<close> hands to \<open>prepare_request\<close> when it is given a URL or nothing:
  \<open>request_kwargs["url"] = url\<close> when a URL is given.
\<close>

definition given_config :: "url_arg \<Rightarrow> (string \<times> option_value) list \<Rightarrow> (string \<times> option_value) list" where
  "given_config url request_kwargs =
     (case url of UrlStr u \<Rightarrow> AList.update ''url'' (CfgStr u) request_kwargs | _ \<Rightarrow> request_kwargs)"

definition is_request :: "url_arg \<Rightarrow> bool" where
  "is_request url = (case url of UrlRequest req \<Rightarrow> True | _ \<Rightarrow> False)"

definition request :: "'s env \<Rightarrow> 's Grab \<Rightarrow> url_arg \<Rightarrow> (string \<times> option_value) list
    \<Rightarrow> (error + Document) \<times> 's Grab \<times> trace" where
  "request env self url request_kwargs =
     (case url of
        UrlRequest req \<Rightarrow> request_loop env request_kwargs req 0 self []
      | _ \<Rightarrow>
          (case prepare_request env self (given_config url request_kwargs) of
             (Inl e, self1) \<Rightarrow> (Inl e, self1, [])
           | (Inr req, self1) \<Rightarrow>
               request_loop env (given_config url request_kwargs) req 0 self1 []))"

subsection \<open>Redirect chains\<close>

text \<open>
  Whether a request that \<open>prepare_request\<close> builds from the keyword options follows
  redirects: \<open>follow_location\<close> is not given, is \<open>None\<close>, or is true.
\<close>

definition kwargs_follow :: "(string \<times> option_value) list \<Rightarrow> bool" where
  "kwargs_follow request_kwargs =
     (case map_of (rev request_kwargs) ''follow_location'' of
        None \<Rightarrow> True
      | Some v \<Rightarrow> if v = CfgNone then True else is_true v)"

text \<open>
  A redirect chain of length \<open>k\<close> that ends in a response which is no redirect: starting
  from a request, \<open>k\<close> exchanges in a row answer with a redirect, each followed to the URL
  the client resolves (the request rebuilt from the keyword options, the cookies kept,
  no limit applied), and the next exchange answers with a document that
  \<open>find_redirect_url\<close> finds no redirect in. \<open>chain_end\<close> gives that last document, the
  client after it and the exchanges made; it is \<open>None\<close> when the responses do not form
  such a chain.
\<close>

fun chain_end :: "'s env \<Rightarrow> (string \<times> option_value) list \<Rightarrow> Request \<Rightarrow> 's Grab \<Rightarrow> nat
    \<Rightarrow> (Document \<times> 's Grab \<times> trace) option" where
  "chain_end env request_kwargs req self 0 =
     (case exchange env self req of
        (Inl e, self1) \<Rightarrow> None
      | (Inr doc, self1) \<Rightarrow>
          if find_redirect_url doc = Inr None then Some (doc, self1, [(req, Inr doc)]) else None)"
| "chain_end env request_kwargs req self (Suc k) =
     (case exchange env self req of
        (Inl e, self1) \<Rightarrow> None
      | (Inr doc, self1) \<Rightarrow>
          (case find_redirect_url doc of
             Inr (Some redir_url) \<Rightarrow>
               (case prepare_request env self1 (redirect_kwargs env request_kwargs req redir_url) of
                  (Inl e, self2) \<Rightarrow> None
                | (Inr req1, self2) \<Rightarrow>
                    (case chain_end env (redirect_kwargs env request_kwargs req redir_url) req1 self2 k of
                       None \<Rightarrow> None
                     | Some (final, self3, tr) \<Rightarrow> Some (final, self3, (req, Inr doc) # tr)))
           | _ \<Rightarrow> None))"

text \<open>
  In a trace, every request but the first goes to the \<open>Location\<close> of the response before
  it, resolved by \<open>urljoin\<close> against the URL of the request before it.
\<close>

fun hops_resolved :: "'s env \<Rightarrow> trace \<Rightarrow> bool" where
  "hops_resolved env [] = True"
| "hops_resolved env [x] = True"
| "hops_resolved env ((req, r) # (req1, r1) # rest) =
     ((case r of
         Inl e \<Rightarrow> False
       | Inr doc \<Rightarrow>
           (case find_redirect_url doc of
              Inr (Some location) \<Rightarrow> req_url req1 = urljoin env (req_url req) location
            | _ \<Rightarrow> False))
      \<and> hops_resolved env ((req1, r1) # rest))"

subsection \<open>A server and a client to run the loop on\<close>

text \<open>
  A server with hosts of one letter: \<open>/a\<close> redirects to \<open>/b\<close>, \<open>/b\<close> redirects to
  \<open>/c\<close>, and every other URL answers 200. \<open>demo_urljoin\<close> resolves an absolute path
  against \<open>http://h/...\<close>. The state of the transport counts the exchanges, and the
  default redirect limit is 10.
\<close>

definition redirect_to :: "string \<Rightarrow> string \<Rightarrow> Document" where
  "redirect_to url location =
     \<lparr>doc_url = url, code = 302,
      doc_headers = Some (\<lambda>name. if name = ''Location'' then Some location else None),
      body = [], doc_cookies = []\<rparr>"

definition demo_server :: "string \<Rightarrow> Document" where
  "demo_server url =
     (if url = ''http://h/a'' then redirect_to url ''/b''
      else if url = ''http://h/b'' then redirect_to url ''/c''
      else \<lparr>doc_url = url, code = 200, doc_headers = Some (\<lambda>name. None), body = ''ok'',
             doc_cookies = []\<rparr>)"

definition demo_urljoin :: "string \<Rightarrow> string \<Rightarrow> string" where
  "demo_urljoin base location = take 8 base @ location"

definition demo_env :: "nat env" where
  "demo_env =
     \<lparr>reset = (\<lambda>s. s), transport_request = (\<lambda>req jar s. (None, Suc s)),
      prepare_response = (\<lambda>req s. Inr (demo_server (req_url req))),
      wrap_transport_error = (\<lambda>e. e), urljoin = demo_urljoin,
      hostname = (\<lambda>url. Some ''h''), default_redirect_limit = 10\<rparr>"

definition demo_grab :: "nat Grab" where
  "demo_grab = \<lparr>config = default_grab_config, transport = 0, cookies = []\<rparr>"

text \<open>The request for a URL with a redirect limit and nothing else set.\<close>

definition demo_request :: "string \<Rightarrow> int \<Rightarrow> Request" where
  "demo_request url limit =
     create_from_mapping 10 [(''url'', CfgStr url), (''redirect_limit'', CfgInt limit)]"

section \<open>Cloning and pickling the client (grab/grab.py)\<close>

subsection \<open>Objects and references\<close>

text \<open>
  \<open>clone\<close>, \<open>__getstate__\<close> and \<open>__setstate__\<close> are about which objects two clients
  share, so here the slots of a client hold references into a store of objects. A value
  is an immutable value, a reference to an object of the store, or the list of cookies
  that \<open>list(jar)\<close> builds. An object is a \<open>dict\<close>, a \<open>list\<close>, a cookie jar or a
  transport. The store is the list of the objects allocated so far; the address of an
  object is its index, and a new object is put at the end.
\<close>

datatype pyval = Val option_value | Ref nat | CookieList "cookie list"

datatype obj =
    ODict "(string \<times> pyval) list"
  | OList "pyval list"
  | OJar CookieJar
  | OTransport

type_synonym store = "obj list"

definition lookup :: "store \<Rightarrow> nat \<Rightarrow> obj option" where
  "lookup h a = (if a < length h then Some (h ! a) else None)"

text \<open>The client with its \<open>__slots__\<close>.\<close>

record Grab_object =
  slot_config :: pyval
  slot_transport :: pyval
  slot_cookies :: pyval

definition slots :: "string list" where
  "slots = [''config'', ''transport'', ''cookies'']"

definition getattr :: "Grab_object \<Rightarrow> string \<Rightarrow> pyval" where
  "getattr self slot_name =
     (if slot_name = ''config'' then slot_config self
      else if slot_name = ''transport'' then slot_transport self
      else slot_cookies self)"

definition setattr :: "Grab_object \<Rightarrow> string \<Rightarrow> pyval \<Rightarrow> Grab_object" where
  "setattr self slot_name v =
     (if slot_name = ''config'' then self\<lparr>slot_config := v\<rparr>
      else if slot_name = ''transport'' then self\<lparr>slot_transport := v\<rparr>
      else self\<lparr>slot_cookies := v\<rparr>)"

text \<open>
  \<open>copy.copy\<close>: an immutable value is returned as it is; for an object a new object
  with the same content is allocated, so what the content refers to is shared.
\<close>

definition copy :: "store \<Rightarrow> pyval \<Rightarrow> pyval \<times> store" where
  "copy h y =
     (case y of
        Ref a \<Rightarrow> (case lookup h a of None \<Rightarrow> (y, h) | Some ob \<Rightarrow> (Ref (length h), h @ [ob]))
      | _ \<Rightarrow> (y, h))"

text \<open>The comprehension \<open>{x: copy(y) for x, y in config.items()}\<close> of \<open>copy_config\<close>.\<close>

fun copy_config_loop :: "(string \<times> pyval) list \<Rightarrow> (string \<times> pyval) list \<times> store
    \<Rightarrow> (string \<times> pyval) list \<times> store" where
  "copy_config_loop [] (new_items, h) = (new_items, h)"
| "copy_config_loop ((x, y) # items) (new_items, h) =
     (case copy h y of (y1, h1) \<Rightarrow> copy_config_loop items (AList.update x y1 new_items, h1))"

definition copy_config :: "store \<Rightarrow> pyval \<Rightarrow> (error + pyval) \<times> store" where
  "copy_config h config_value =
     (case config_value of
        Ref a \<Rightarrow>
          (case lookup h a of
             Some (ODict items) \<Rightarrow>
               (case copy_config_loop items ([], h) of
                  (new_items, h1) \<Rightarrow> (Inr (Ref (length h1)), h1 @ [ODict new_items]))
           | _ \<Rightarrow> (Inl (AttributeError ''items''), h))
      | _ \<Rightarrow> (Inl (AttributeError ''items''), h))"

text \<open>\<open>list(self.cookies)\<close>\<close>

definition jar_items :: "store \<Rightarrow> pyval \<Rightarrow> error + cookie list" where
  "jar_items h cookies_value =
     (case cookies_value of
        Ref a \<Rightarrow>
          (case lookup h a of
             Some (OJar jar) \<Rightarrow> Inr jar
           | _ \<Rightarrow> Inl (TypeError ''not a cookie jar''))
      | _ \<Rightarrow> Inl (TypeError ''not a cookie jar''))"

text \<open>
  \<open>setup\<close> writes the options into the configuration mapping of the client one by one
  and raises at the first unknown one.
\<close>

fun setup_grab_loop :: "(string \<times> pyval) list \<Rightarrow> (string \<times> pyval) list
    \<Rightarrow> error option \<times> (string \<times> pyval) list" where
  "setup_grab_loop [] items = (None, items)"
| "setup_grab_loop ((key, val) # kwargs) items =
     (if map_of items key \<noteq> None then setup_grab_loop kwargs (AList.update key val items)
      else (Some (GrabMisuseError (''Unknown option: '' @ key)), items))"

definition setup_grab :: "Grab_object \<Rightarrow> (string \<times> pyval) list \<Rightarrow> store \<Rightarrow> error option \<times> store" where
  "setup_grab self kwargs h =
     (case slot_config self of
        Ref a \<Rightarrow>
          (case lookup h a of
             Some (ODict items) \<Rightarrow>
               (case setup_grab_loop kwargs items of (e, items1) \<Rightarrow> (e, h[a := ODict items1]))
           | _ \<Rightarrow> (Some (TypeError ''not a mapping''), h))
      | _ \<Rightarrow> (Some (TypeError ''not a mapping''), h))"

text \<open>
  Modelled from the spec: \<open>resolve_transport_entity\<close> (\<open>grab.types\<close>) is not among the
  sources; the spec has transports pluggable, and a transport object that is passed in
  is taken to be the one the client uses.
\<close>

text \<open>
  \<open>Grab(transport=...)\<close> without options: a new configuration mapping with the defaults
  and a new empty jar.
\<close>

definition init_grab :: "pyval \<Rightarrow> store \<Rightarrow> Grab_object \<times> store" where
  "init_grab transport_value h =
     (\<lparr>slot_config = Ref (length h), slot_transport = transport_value,
       slot_cookies = Ref (length h + 1)\<rparr>,
      h @ [ODict (map (\<lambda>(key, v). (key, Val v)) default_grab_config), OJar []])"

definition clone :: "Grab_object \<Rightarrow> (string \<times> pyval) list \<Rightarrow> store \<Rightarrow> (error + Grab_object) \<times> store" where
  "clone self kwargs h =
     (case init_grab (slot_transport self) h of
        (grab, h1) \<Rightarrow>
          (case copy_config h1 (slot_config self) of
             (Inl e, h2) \<Rightarrow> (Inl e, h2)
           | (Inr config_value, h2) \<Rightarrow>
               (case jar_items h2 (slot_cookies self) of
                  Inl e \<Rightarrow> (Inl e, h2)
                | Inr items \<Rightarrow>
                    (let grab1 = grab\<lparr>slot_config := config_value, slot_cookies := Ref (length h2)\<rparr>;
                         h3 = h2 @ [OJar (build_jar items)]
                     in if kwargs \<noteq> []
                        then (case setup_grab grab1 kwargs h3 of
                                (Some e, h4) \<Rightarrow> (Inl e, h4)
                              | (None, h4) \<Rightarrow> (Inr grab1, h4))
                        else (Inr grab1, h3)))))"

text \<open>
  \<open>__getstate__\<close> walks \<open>__slots__\<close>; the state is a mapping from slot names to values,
  with the list of the cookies under \<open>_cookies_items\<close> in place of the jar.
\<close>

fun getstate_loop :: "string list \<Rightarrow> Grab_object \<Rightarrow> store \<Rightarrow> (string \<times> pyval) list
    \<Rightarrow> error + (string \<times> pyval) list" where
  "getstate_loop [] self h state = Inr state"
| "getstate_loop (slot_name # rest) self h state =
     (if slot_name = ''cookies''
      then (case jar_items h (slot_cookies self) of
              Inl e \<Rightarrow> Inl e
            | Inr items \<Rightarrow>
                getstate_loop rest self h (AList.update ''_cookies_items'' (CookieList items) state))
      else getstate_loop rest self h (AList.update slot_name (getattr self slot_name) state))"

definition getstate :: "Grab_object \<Rightarrow> store \<Rightarrow> error + (string \<times> pyval) list" where
  "getstate self h = getstate_loop slots self h []"

text \<open>
  \<open>__setstate__\<close> walks the state. It returns the exception raised, if any, and the
  client and the store as the call leaves them: the entries before an unknown key have
  been applied.
\<close>

definition not_in_slots :: "string \<Rightarrow> error" where
  "not_in_slots key =
     ValueError (''Key '' @ [CHR 0x27] @ key @ [CHR 0x27] @ '' is not in __slots__'' @ [CHR 0x27])"

fun setstate_loop :: "(string \<times> pyval) list \<Rightarrow> Grab_object \<Rightarrow> store
    \<Rightarrow> error option \<times> Grab_object \<times> store" where
  "setstate_loop [] self h = (None, self, h)"
| "setstate_loop ((key, v) # rest) self h =
     (if key = ''_cookies_items''
      then (case v of
              CookieList items \<Rightarrow>
                setstate_loop rest (self\<lparr>slot_cookies := Ref (length h)\<rparr>) (h @ [OJar (build_jar items)])
            | _ \<Rightarrow> (Some (TypeError ''not a list of cookies''), self, h))
      else if key \<notin> set slots then (Some (not_in_slots key), self, h)
      else setstate_loop rest (setattr self key v) h)"

definition setstate :: "Grab_object \<Rightarrow> (string \<times> pyval) list \<Rightarrow> store
    \<Rightarrow> error option \<times> Grab_object \<times> store" where
  "setstate self state h = setstate_loop state self h"

subsection \<open>What a client can see and reach\<close>

definition config_items :: "store \<Rightarrow> Grab_object \<Rightarrow> (string \<times> pyval) list option" where
  "config_items h self =
     (case slot_config self of
        Ref a \<Rightarrow> (case lookup h a of Some (ODict items) \<Rightarrow> Some items | _ \<Rightarrow> None)
      | _ \<Rightarrow> None)"

definition jar_of :: "store \<Rightarrow> Grab_object \<Rightarrow> CookieJar option" where
  "jar_of h self =
     (case slot_cookies self of
        Ref a \<Rightarrow> (case lookup h a of Some (OJar jar) \<Rightarrow> Some jar | _ \<Rightarrow> None)
      | _ \<Rightarrow> None)"

text \<open>
  A configuration value as far as one level of references goes: the value itself and,
  for a reference, the content of the object it refers to.
\<close>

definition referent :: "store \<Rightarrow> pyval \<Rightarrow> obj option" where
  "referent h v = (case v of Ref a \<Rightarrow> lookup h a | _ \<Rightarrow> None)"

definition content :: "store \<Rightarrow> pyval \<Rightarrow> pyval + obj option" where
  "content h v = (case v of Ref a \<Rightarrow> Inr (lookup h a) | _ \<Rightarrow> Inl v)"

text \<open>
  The view of a client: its configuration entries with the content of the objects they
  refer to, and the cookies of its jar.
\<close>

definition view :: "store \<Rightarrow> Grab_object
    \<Rightarrow> (string \<times> (pyval + obj option)) list option \<times> CookieJar option" where
  "view h self =
     (map_option (map (\<lambda>(key, v). (key, content h v))) (config_items h self), jar_of h self)"

text \<open>
  The objects a client owns: its configuration mapping, its jar, and the objects its
  configuration values refer to.
\<close>

definition refs_of :: "pyval list \<Rightarrow> nat set" where
  "refs_of vs = {a. Ref a \<in> set vs}"

definition footprint :: "store \<Rightarrow> Grab_object \<Rightarrow> nat set" where
  "footprint h self =
     refs_of [slot_config self, slot_cookies self]
     \<union> (case config_items h self of None \<Rightarrow> {} | Some items \<Rightarrow> refs_of (map snd items))"

text \<open>
  A client in good order: its configuration is a \<open>dict\<close> of the store whose values
  refer to objects of the store, and its jar is a jar of the store with one cookie for
  each domain, path and name.
\<close>

definition valid_values :: "store \<Rightarrow> pyval list \<Rightarrow> bool" where
  "valid_values h vs = list_all (\<lambda>v. case v of Ref a \<Rightarrow> a < length h | _ \<Rightarrow> True) vs"

definition client_ok :: "store \<Rightarrow> Grab_object \<Rightarrow> bool" where
  "client_ok h self =
     (case (config_items h self, jar_of h self) of
        (Some items, Some jar) \<Rightarrow>
          distinct (map fst items) \<and> distinct (map cookie_key jar)
          \<and> valid_values h (map snd items)
      | _ \<Rightarrow> False)"

subsection \<open>A store to clone in\<close>

text \<open>
  \<open>xs.append(v)\<close> on the list at an address, and \<open>self.config[key][0]\<close>.
\<close>

definition list_append :: "store \<Rightarrow> nat \<Rightarrow> pyval \<Rightarrow> store" where
  "list_append h a v =
     (case lookup h a of Some (OList xs) \<Rightarrow> h[a := OList (xs @ [v])] | _ \<Rightarrow> h)"

definition first_item :: "store \<Rightarrow> Grab_object \<Rightarrow> string \<Rightarrow> pyval option" where
  "first_item h self key =
     (case config_items h self of
        None \<Rightarrow> None
      | Some items \<Rightarrow>
          (case map_of items key of
             None \<Rightarrow> None
           | Some v \<Rightarrow> (case referent h v of Some (OList (x # xs)) \<Rightarrow> Some x | _ \<Rightarrow> None)))"

text \<open>
  A client whose configuration is \<open>{"reuse_cookies": True, "opts": [[1]]}\<close> and whose jar
  holds one cookie: the mapping is object 0, the jar object 1, the outer list object 2,
  the inner list object 3 and the transport object 4.
\<close>

definition demo_store :: store where
  "demo_store =
     [ODict [(''reuse_cookies'', Val (CfgBool True)), (''opts'', Ref 2)],
      OJar [create_cookie ''sid'' ''1'' ''h''],
      OList [Ref 3],
      OList [Val (CfgInt 1)],
      OTransport]"

definition demo_client :: Grab_object where
  "demo_client = \<lparr>slot_config = Ref 0, slot_transport = Ref 4, slot_cookies = Ref 1\<rparr>"

text \<open>A state value that \<open>build_jar\<close> accepts.\<close>

definition is_cookie_list :: "pyval \<Rightarrow> bool" where
  "is_cookie_list v = (case v of CookieList items \<Rightarrow> True | _ \<Rightarrow> False)"

section \<open>Properties of the queue backend\<close>

subsection \<open>The heap keeps its entries\<close>

lemma length_siftdown_loop [simp]:
  "length (siftdown_loop heap startpos pos newitem) = length heap"
  by (induction heap startpos pos newitem rule: siftdown_loop.induct)
     (subst siftdown_loop.simps, simp)

lemma mset_update_swap:
  assumes "i < length xs" and "j < length xs"
  shows "mset (xs[i := xs ! j, j := x]) = mset (xs[i := x])"
proof (cases "i = j")
  case True
  then show ?thesis by simp
next
  case False
  let ?ys = "xs[i := x]"
  have "xs[i := xs ! j, j := x] = ?ys[j := ?ys ! i, i := ?ys ! j]"
    using False assms by (intro nth_equalityI) (auto simp: nth_list_update)
  moreover have "mset (?ys[j := ?ys ! i, i := ?ys ! j]) = mset ?ys"
    by (rule mset_swap) (use assms in simp_all)
  ultimately show ?thesis by (simp only:)
qed

lemma mset_siftdown_loop:
  "pos < length heap \<Longrightarrow>
     mset (siftdown_loop heap startpos pos newitem) = mset (heap[pos := newitem])"
proof (induction heap startpos pos newitem rule: siftdown_loop.induct)
  case (1 heap startpos pos newitem)
  let ?pp = "(pos - 1) div 2"
  show ?case
  proof (cases "pos > startpos \<and> item_less newitem (heap ! ?pp)")
    case False
    then show ?thesis by (subst siftdown_loop.simps) auto
  next
    case True
    then have pp: "?pp < length heap" using "1.prems" by auto
    have "mset (siftdown_loop heap startpos pos newitem)
        = mset (siftdown_loop (heap[pos := heap ! ?pp]) startpos ?pp newitem)"
      using True by (subst siftdown_loop.simps) simp
    also have "\<dots> = mset (heap[pos := heap ! ?pp, ?pp := newitem])"
      using "1.IH" True pp by simp
    also have "\<dots> = mset (heap[pos := newitem])"
      using "1.prems" pp by (rule mset_update_swap)
    finally show ?thesis .
  qed
qed

lemma mset_siftdown:
  "pos < length heap \<Longrightarrow> mset (siftdown heap startpos pos) = mset heap"
  by (simp add: siftdown_def mset_siftdown_loop)

lemma siftup_loop_props:
  "siftup_loop heap pos endpos = (heap1, pos1) \<Longrightarrow> pos < length heap \<Longrightarrow> endpos \<le> length heap \<Longrightarrow>
     length heap1 = length heap \<and> pos1 < length heap
     \<and> mset (heap1[pos1 := x]) = mset (heap[pos := x])"
proof (induction heap pos endpos arbitrary: heap1 pos1 rule: siftup_loop.induct)
  case (1 heap pos endpos)
  show ?case
  proof (cases "2 * pos + 1 < endpos")
    case False
    with "1.prems" show ?thesis by (subst (asm) siftup_loop.simps) auto
  next
    case True
    define childpos where "childpos =
      (if 2 * pos + 2 < endpos \<and> \<not> item_less (heap ! (2 * pos + 1)) (heap ! (2 * pos + 2))
       then 2 * pos + 2 else 2 * pos + 1)"
    have c: "childpos < length heap" "childpos < endpos"
      using True "1.prems"(3) by (auto simp: childpos_def)
    have step: "siftup_loop (heap[pos := heap ! childpos]) childpos endpos = (heap1, pos1)"
      using "1.prems"(1) True by (subst (asm) siftup_loop.simps) (simp add: childpos_def Let_def)
    from "1.IH" [OF True childpos_def step] c "1.prems"(3)
    have "length heap1 = length heap \<and> pos1 < length heap
      \<and> mset (heap1[pos1 := x]) = mset (heap[pos := heap ! childpos, childpos := x])"
      by simp
    moreover have "mset (heap[pos := heap ! childpos, childpos := x]) = mset (heap[pos := x])"
      using "1.prems"(2) c(1) by (rule mset_update_swap)
    ultimately show ?thesis by simp
  qed
qed

lemma mset_siftup:
  assumes "pos < length heap"
  shows "mset (siftup heap pos) = mset heap"
proof -
  obtain heap1 pos1 where l: "siftup_loop heap pos (length heap) = (heap1, pos1)"
    by (cases "siftup_loop heap pos (length heap)")
  from siftup_loop_props [OF l assms, of "heap ! pos"]
  have p: "length heap1 = length heap" "pos1 < length heap"
    "mset (heap1[pos1 := heap ! pos]) = mset heap"
    by simp_all
  show ?thesis
    using p by (simp add: siftup_def l mset_siftdown)
qed

lemma mset_heappush: "mset (heappush heap item) = add_mset item (mset heap)"
  by (simp add: heappush_def mset_siftdown)

lemma mset_heappop:
  assumes "heap \<noteq> []" and "heappop heap = (item, heap1)"
  shows "mset heap = add_mset item (mset heap1)"
proof (cases "butlast heap = []")
  case True
  with assms show ?thesis
    by (cases heap) (auto simp: heappop_def Let_def split: if_splits)
next
  case False
  let ?b = "butlast heap"
  from assms(2) False have i: "item = ?b ! 0" and h: "heap1 = siftup (?b[0 := last heap]) 0"
    by (simp_all add: heappop_def Let_def)
  have l: "0 < length ?b" using False by (cases "butlast heap") simp_all
  have "mset heap1 = mset (?b[0 := last heap])"
    unfolding h using l by (simp add: mset_siftup)
  also have "\<dots> = add_mset (last heap) (mset ?b - {#?b ! 0#})"
    using l by (simp add: mset_update)
  finally have "add_mset item (mset heap1) = add_mset (last heap) (mset ?b)"
    using l by (simp add: i)
  also have "\<dots> = mset (?b @ [last heap])" by simp
  also have "\<dots> = mset heap" using assms(1) by simp
  finally show ?thesis by simp
qed

lemma mset_pq_put: "mset (pq_put q item) = add_mset item (mset q)"
  by (simp add: pq_put_def mset_heappush)

lemma pq_get_Inl: "pq_get q = (Inl e, q1) \<Longrightarrow> e = Empty \<and> q = [] \<and> q1 = []"
  by (auto simp: pq_get_def split: if_splits prod.splits)

lemma pq_get_Inr: "pq_get q = (Inr item, q1) \<Longrightarrow> q \<noteq> [] \<and> mset q = add_mset item (mset q1)"
  by (auto simp: pq_get_def mset_heappop split: if_splits prod.splits)

lemma mset_foldl_pq_put: "mset (foldl pq_put q items) = mset q + mset items"
  by (induction items arbitrary: q) (simp_all add: mset_pq_put)

lemma length_pq_put: "length (pq_put q item) = Suc (length q)"
  using mset_pq_put [of q item, THEN arg_cong, of size] by simp

lemma length_foldl_pq_put: "length (foldl pq_put q items) = length q + length items"
  by (induction items arbitrary: q) (simp_all add: length_pq_put)

subsection \<open>Promotion\<close>

lemma promote_loop_schedule:
  "schedule_list (fst (promote_loop now xs i (self, rm))) = schedule_list self"
  by (induction xs arbitrary: i self rm) (auto simp: put_def)

lemma promote_loop_queue:
  "queue_object (fst (promote_loop now xs i (self, rm))) =
     foldl pq_put (queue_object self)
       (map (\<lambda>(t, task). (1, task)) (filter (\<lambda>(t, task). t \<le> now) xs))"
  by (induction xs arbitrary: i self rm) (auto simp: put_def)

lemma promote_loop_removed:
  "snd (promote_loop now xs i (self, rm)) =
     rm @ map fst (filter (\<lambda>(idx, (t, task)). t \<le> now) (enumerate i xs))"
  by (induction xs arbitrary: i self rm) auto

lemma map_snd_filter_enumerate:
  "map snd (filter (\<lambda>p. P (snd p)) (enumerate n xs)) = filter P xs"
  by (induction xs arbitrary: n) auto

lemma drop_indexes_due:
  "drop_indexes (map fst (filter (\<lambda>(idx, (t, task)). t \<le> now) (enumerate 0 xs))) xs =
     filter (\<lambda>(t, task). \<not> t \<le> now) xs"
proof -
  let ?E = "enumerate 0 xs"
  let ?rm = "map fst (filter (\<lambda>(idx, (t, task)). t \<le> now) ?E)"
  have key: "(idx \<notin> set ?rm) = (\<not> fst x \<le> now)" if "(idx, x) \<in> set ?E" for idx x
  proof -
    from that have x: "idx < length xs" "x = xs ! idx"
      by (auto simp: in_set_enumerate_eq)
    have "idx \<in> set ?rm \<longleftrightarrow> fst x \<le> now"
    proof
      assume "idx \<in> set ?rm"
      then obtain y where "(idx, y) \<in> set ?E" "fst y \<le> now"
        by (auto split: prod.splits)
      then show "fst x \<le> now" using x by (auto simp: in_set_enumerate_eq)
    next
      assume "fst x \<le> now"
      with that have "(idx, x) \<in> set (filter (\<lambda>(idx, (t, task)). t \<le> now) ?E)"
        by (auto split: prod.splits)
      then show "idx \<in> set ?rm" by force
    qed
    then show ?thesis by simp
  qed
  have "filter (\<lambda>(idx, x). idx \<notin> set ?rm) ?E = filter (\<lambda>(idx, x). \<not> fst x \<le> now) ?E"
  proof (rule filter_cong [OF refl])
    fix e assume "e \<in> set ?E"
    then show "(case e of (idx, x) \<Rightarrow> idx \<notin> set ?rm) = (case e of (idx, x) \<Rightarrow> \<not> fst x \<le> now)"
      using key [of "fst e" "snd e"] by (simp add: case_prod_unfold)
  qed
  then have "drop_indexes ?rm xs = map snd (filter (\<lambda>(idx, x). \<not> fst x \<le> now) ?E)"
    by (simp add: drop_indexes_def)
  also have "\<dots> = filter (\<lambda>x. \<not> fst x \<le> now) xs"
    using map_snd_filter_enumerate [of "\<lambda>x. \<not> fst x \<le> now" 0 xs]
    by (simp add: case_prod_unfold)
  also have "\<dots> = filter (\<lambda>(t, task). \<not> t \<le> now) xs"
    by (simp add: case_prod_unfold)
  finally show ?thesis .
qed

lemma promote_eq:
  "promote self now =
     self\<lparr>queue_object := foldl pq_put (queue_object self)
              (map (\<lambda>(t, task). (1, task)) (filter (\<lambda>(t, task). t \<le> now) (schedule_list self))),
          schedule_list := filter (\<lambda>(t, task). \<not> t \<le> now) (schedule_list self)\<rparr>"
proof -
  obtain s1 rm where p: "promote_loop now (schedule_list self) 0 (self, []) = (s1, rm)"
    by (cases "promote_loop now (schedule_list self) 0 (self, [])")
  have q: "queue_object s1 = foldl pq_put (queue_object self)
      (map (\<lambda>(t, task). (1, task)) (filter (\<lambda>(t, task). t \<le> now) (schedule_list self)))"
    using promote_loop_queue [of now "schedule_list self" 0 self "[]"] p by simp
  have s: "schedule_list s1 = schedule_list self"
    using promote_loop_schedule [of now "schedule_list self" 0 self "[]"] p by simp
  have r: "rm = map fst (filter (\<lambda>(idx, (t, task)). t \<le> now) (enumerate 0 (schedule_list self)))"
    using promote_loop_removed [of now "schedule_list self" 0 self "[]"] p by simp
  show ?thesis
    unfolding promote_def p
    apply (simp add: s r drop_indexes_due)
    apply (rule QueueBackend.equality)
    apply (simp_all add: q)
    done
qed

lemma mset_promote:
  "mset (queue_object (promote self now)) =
     mset (queue_object self) +
     mset (map (\<lambda>(t, task). (1, task)) (filter (\<lambda>(t, task). t \<le> now) (schedule_list self)))"
  by (simp add: promote_eq mset_foldl_pq_put)

subsection \<open>The size of the queue\<close>

lemma size_put: "size_queue (put self task priority schedule_time) = Suc (size_queue self)"
  by (cases schedule_time) (simp_all add: put_def size_queue_def qsize_def length_pq_put)

lemma size_promote: "size_queue (promote self now) = size_queue self"
proof -
  have "length (filter (\<lambda>(t, task). t \<le> now) (schedule_list self)) +
        length (filter (\<lambda>(t, task). \<not> t \<le> now) (schedule_list self)) = length (schedule_list self)"
    using sum_length_filter_compl [of "\<lambda>(t, task). t \<le> now" "schedule_list self"]
    by (simp add: case_prod_unfold)
  moreover have "length (queue_object (promote self now)) = length (queue_object self) +
        length (filter (\<lambda>(t, task). t \<le> now) (schedule_list self))"
    by (simp add: promote_eq length_foldl_pq_put)
  moreover have "schedule_list (promote self now) = filter (\<lambda>(t, task). \<not> t \<le> now) (schedule_list self)"
    by (simp add: promote_eq)
  ultimately show ?thesis
    by (simp add: size_queue_def qsize_def)
qed

lemma get_Empty:
  "get self now = (Inl e, self') \<Longrightarrow>
     e = Empty \<and> self' = promote self now \<and> queue_object (promote self now) = []"
  by (auto simp: get_def Let_def dest!: pq_get_Inl split: prod.splits sum.splits)

lemma get_task:
  assumes "get self now = (Inr task, self')"
  shows "\<exists>priority q1. pq_get (queue_object (promote self now)) = (Inr (priority, task), q1)
     \<and> self' = (promote self now)\<lparr>queue_object := q1\<rparr>"
  using assms by (auto simp: get_def Let_def split: prod.splits sum.splits)

lemma size_get_Empty: "get self now = (Inl e, self') \<Longrightarrow> size_queue self' = size_queue self"
  using get_Empty [of self now e self'] by (simp add: size_promote)

lemma size_get_task:
  assumes "get self now = (Inr task, self')"
  shows "Suc (size_queue self') = size_queue self"
proof -
  from get_task [OF assms] obtain priority q1
    where g: "pq_get (queue_object (promote self now)) = (Inr (priority, task), q1)"
      and s: "self' = (promote self now)\<lparr>queue_object := q1\<rparr>"
    by blast
  from pq_get_Inr [OF g] have "length (queue_object (promote self now)) = Suc (length q1)"
    by (auto dest: arg_cong [where f = size])
  then have "Suc (size_queue self') = size_queue (promote self now)"
    by (simp add: s size_queue_def qsize_def)
  then show ?thesis by (simp add: size_promote)
qed

lemma size_run_ops:
  "size_queue (run_ops self ops) + count_successful_gets self ops = size_queue self + count_puts ops"
proof (induction ops arbitrary: self)
  case Nil
  then show ?case by simp
next
  case (Cons op ops)
  show ?case
  proof (cases op)
    case (Put task priority schedule_time)
    then show ?thesis using Cons.IH [of "put self task priority schedule_time"]
      by (simp add: size_put)
  next
    case (Get now)
    obtain r self' where g: "get self now = (r, self')" by (cases "get self now")
    show ?thesis
    proof (cases r)
      case (Inl e)
      with g Get Cons.IH [of self'] size_get_Empty [of self now e self'] show ?thesis by simp
    next
      case (Inr task)
      with g Get Cons.IH [of self'] size_get_task [of self now task self'] show ?thesis by simp
    qed
  qed
qed

text \<open>
  Claim C5. For any interleaving of \<open>put\<close> and \<open>get\<close> calls on a fresh memory queue
  backend, \<open>size()\<close> equals the number of puts minus the number of successful gets, and
  it is the size of the ready queue plus the length of the schedule list.
\<close>

theorem size_is_puts_minus_gets:
  "int (size_queue (run_ops init_queue ops)) =
     int (count_puts ops) - int (count_successful_gets init_queue ops)
   \<and> size_queue (run_ops init_queue ops) =
       qsize (queue_object (run_ops init_queue ops)) + length (schedule_list (run_ops init_queue ops))"
proof -
  have "size_queue (init_queue :: 'a QueueBackend) = 0"
    by (simp add: init_queue_def size_queue_def qsize_def)
  with size_run_ops [of init_queue ops] show ?thesis
    by (simp add: size_queue_def)
qed

lemmas heap_eval = heappush_def heappop_def siftdown_def siftup_def siftdown_loop.simps
  siftup_loop.simps item_less_def pq_put_def pq_get_def Let_def

lemmas queue_eval = init_queue_def put_def get_def promote_def drop_indexes_def queued_tasks_def
  heap_eval

theorem size_is_puts_minus_gets_witness:
  "size_queue (run_ops init_queue [Put (7::nat) 2 None, Put 8 1 (Some 50), Get 10, Get 20, Put 9 1 None]) = 2
   \<and> count_puts [Put (7::nat) 2 None, Put 8 1 (Some 50), Get 10, Get 20, Put 9 1 None] = 3
   \<and> count_successful_gets init_queue [Put (7::nat) 2 None, Put 8 1 (Some 50), Get 10, Get 20, Put 9 1 None] = 1"
proof -
  let ?ops = "[Put (7::nat) 2 None, Put 8 1 (Some 50), Get 10, Get 20, Put 9 1 None]"
  have c: "count_puts ?ops = 3" by simp
  have g: "count_successful_gets init_queue ?ops = 1"
    by (simp add: queue_eval)
  from size_is_puts_minus_gets [of ?ops] have "int (size_queue (run_ops init_queue ?ops)) = 2"
    unfolding c g by simp
  then show ?thesis using c g by simp
qed

subsection \<open>Scheduled tasks\<close>

lemma set_pq_put: "set (pq_put q item) = insert item (set q)"
  using mset_pq_put [of q item, THEN arg_cong, of set_mset] by simp

lemma set_promote:
  "set (queue_object (promote self now)) =
     set (queue_object self) \<union>
     (\<lambda>(t, task). (1, task)) ` {e \<in> set (schedule_list self). fst e \<le> now}"
  using mset_promote [of self now, THEN arg_cong, of set_mset]
  by (auto simp: case_prod_unfold)

lemma pq_get_Inr_set:
  assumes "pq_get q = (Inr item, q1)"
  shows "item \<in> set q" and "set q1 \<subseteq> set q"
proof -
  from pq_get_Inr [OF assms] have m: "mset q = add_mset item (mset q1)" by simp
  from m [THEN arg_cong, of set_mset] show "item \<in> set q" and "set q1 \<subseteq> set q"
    by auto
qed

lemma waits_put_scheduled:
  "task \<notin> queued_tasks self \<Longrightarrow> waits task t (put self task priority (Some t))"
  by (auto simp: waits_def queued_tasks_def put_def)

lemma waits_put_other:
  "waits task t self \<Longrightarrow> x \<noteq> task \<Longrightarrow> waits task t (put self x priority schedule_time)"
  by (cases schedule_time) (auto simp: waits_def put_def set_pq_put)

lemma waits_promote:
  assumes "waits task t self" and "now < t"
  shows "waits task t (promote self now)"
proof -
  have "task \<notin> snd ` set (queue_object (promote self now))"
  proof
    assume "task \<in> snd ` set (queue_object (promote self now))"
    then obtain p where p: "(p, task) \<in> set (queue_object (promote self now))" by force
    then have "(p, task) \<in> set (queue_object self) \<or>
        (\<exists>e \<in> set (schedule_list self). fst e \<le> now \<and> snd e = task)"
      unfolding set_promote by (auto simp: case_prod_unfold)
    then show False
    proof
      assume "(p, task) \<in> set (queue_object self)"
      then have "task \<in> snd ` set (queue_object self)" by force
      with assms(1) show False by (simp add: waits_def)
    next
      assume "\<exists>e \<in> set (schedule_list self). fst e \<le> now \<and> snd e = task"
      then obtain e where "e \<in> set (schedule_list self)" "fst e \<le> now" "snd e = task" by blast
      with assms(1) have "t \<le> now" by (auto simp: waits_def)
      with assms(2) show False by simp
    qed
  qed
  moreover have "\<forall>e \<in> set (schedule_list (promote self now)). snd e = task \<longrightarrow> t \<le> fst e"
    using assms(1) by (auto simp: waits_def promote_eq)
  ultimately show ?thesis by (simp add: waits_def)
qed

lemma waits_get:
  fixes self :: "('task::ord) QueueBackend"
  assumes "waits task t self" and "now < t"
  shows "fst (get self now) \<noteq> Inr task \<and> waits task t (snd (get self now))"
proof -
  obtain r self' where g: "get self now = (r, self')" by (cases "get self now")
  have w: "waits task t (promote self now)" using assms by (rule waits_promote)
  show ?thesis
  proof (cases r)
    case (Inl e)
    with g get_Empty [of self now e self'] w show ?thesis by simp
  next
    case (Inr x)
    with g get_task [of self now x self'] obtain priority q1
      where p: "pq_get (queue_object (promote self now)) = (Inr (priority, x), q1)"
        and s: "self' = (promote self now)\<lparr>queue_object := q1\<rparr>"
      by blast
    from pq_get_Inr_set [OF p] have "x \<in> snd ` set (queue_object (promote self now))"
      and sub: "set q1 \<subseteq> set (queue_object (promote self now))"
      by force+
    then have "x \<noteq> task" using w by (auto simp: waits_def)
    moreover have "waits task t self'"
      using w sub by (auto simp: s waits_def)
    ultimately show ?thesis using g Inr by simp
  qed
qed

lemma waits_outputs:
  fixes self :: "('task::ord) QueueBackend"
  shows "waits task t self \<Longrightarrow> list_all (early_op task t) ops \<Longrightarrow> Inr task \<notin> set (outputs self ops)"
proof (induction ops arbitrary: self)
  case Nil
  then show ?case by simp
next
  case (Cons op ops)
  show ?case
  proof (cases op)
    case (Put x priority schedule_time)
    with Cons.prems have "waits task t (put self x priority schedule_time)"
      by (simp add: waits_put_other)
    with Cons.IH Cons.prems Put show ?thesis by simp
  next
    case (Get now)
    with Cons.prems have "now < t" by simp
    from waits_get [OF Cons.prems(1) this] Cons.IH [of "snd (get self now)"] Cons.prems Get
    show ?thesis by auto
  qed
qed

text \<open>
  Claim C3. A task put with \<open>schedule_time = t\<close> that the queue does not hold otherwise is
  returned by no \<open>get\<close> whose clock reads less than \<open>t\<close>, whatever is put and got in
  between. Each \<open>get\<close> first puts every scheduled entry with \<open>schedule_time \<le> now\<close> into
  the ready queue at priority 1 (the schedule list keeps no priority), in the order of the
  list, and leaves the others scheduled, so that the ready queue holds its entries and
  the promoted ones; it raises \<open>Empty\<close> when the ready queue is empty after that, and
  otherwise returns the task of the entry that \<open>heappop\<close> takes from the ready queue,
  which is one of its entries.
\<close>

theorem scheduled_task_waits_and_is_promoted:
  fixes self q :: "('task::ord) QueueBackend"
  shows "(task \<notin> queued_tasks self \<and> list_all (early_op task t) ops
            \<longrightarrow> Inr task \<notin> set (outputs (put self task priority (Some t)) ops))
    \<and> promote q now =
        q\<lparr>queue_object := foldl pq_put (queue_object q)
              (map (\<lambda>(schedule_time, x). (1, x))
                (filter (\<lambda>(schedule_time, x). schedule_time \<le> now) (schedule_list q))),
          schedule_list := filter (\<lambda>(schedule_time, x). \<not> schedule_time \<le> now) (schedule_list q)\<rparr>
    \<and> mset (queue_object (promote q now)) =
        mset (queue_object q) +
        mset (map (\<lambda>(schedule_time, x). (1, x))
                (filter (\<lambda>(schedule_time, x). schedule_time \<le> now) (schedule_list q)))
    \<and> get q now =
        (if queue_object (promote q now) = [] then (Inl Empty, promote q now)
         else (Inr (snd (fst (heappop (queue_object (promote q now))))),
               (promote q now)\<lparr>queue_object := snd (heappop (queue_object (promote q now)))\<rparr>))
    \<and> (queue_object (promote q now) \<noteq> [] \<longrightarrow>
         mset (queue_object (promote q now)) =
           add_mset (fst (heappop (queue_object (promote q now))))
             (mset (snd (heappop (queue_object (promote q now))))))"
proof (intro conjI impI)
  assume "task \<notin> queued_tasks self \<and> list_all (early_op task t) ops"
  then show "Inr task \<notin> set (outputs (put self task priority (Some t)) ops)"
    using waits_outputs [OF waits_put_scheduled] by blast
next
  show "promote q now =
        q\<lparr>queue_object := foldl pq_put (queue_object q)
              (map (\<lambda>(schedule_time, x). (1, x))
                (filter (\<lambda>(schedule_time, x). schedule_time \<le> now) (schedule_list q))),
          schedule_list := filter (\<lambda>(schedule_time, x). \<not> schedule_time \<le> now) (schedule_list q)\<rparr>"
    by (rule promote_eq)
next
  show "mset (queue_object (promote q now)) =
        mset (queue_object q) +
        mset (map (\<lambda>(schedule_time, x). (1, x))
                (filter (\<lambda>(schedule_time, x). schedule_time \<le> now) (schedule_list q)))"
    by (rule mset_promote)
next
  show "get q now =
        (if queue_object (promote q now) = [] then (Inl Empty, promote q now)
         else (Inr (snd (fst (heappop (queue_object (promote q now))))),
               (promote q now)\<lparr>queue_object := snd (heappop (queue_object (promote q now)))\<rparr>))"
    by (simp add: get_def pq_get_def Let_def split: prod.splits sum.splits)
next
  assume "queue_object (promote q now) \<noteq> []"
  then show "mset (queue_object (promote q now)) =
           add_mset (fst (heappop (queue_object (promote q now))))
             (mset (snd (heappop (queue_object (promote q now)))))"
    by (intro mset_heappop) simp_all
qed

theorem scheduled_task_waits_and_is_promoted_witness:
  "(5::nat) \<notin> queued_tasks (put init_queue 4 3 None)
   \<and> list_all (early_op (5::nat) 100) [Get 10, Put 6 2 (Some 20), Get 99]
   \<and> Inr (5::nat) \<notin> set (outputs (put (put init_queue 4 3 None) 5 7 (Some 100))
         [Get 10, Put 6 2 (Some 20), Get 99])
   \<and> outputs (put (put init_queue 4 3 None) (5::nat) 7 (Some 100))
         [Get 10, Put 6 2 (Some 20), Get 99, Get 100] = [Inr 4, Inr 6, Inr 5]
   \<and> get (put init_queue (5::nat) 7 (Some 100)) 99
       = (Inl Empty, \<lparr>queue_object = [], schedule_list = [(100, 5)]\<rparr>)"
proof -
  let ?ops = "[Get 10, Put (6::nat) 2 (Some 20), Get 99]"
  have a: "(5::nat) \<notin> queued_tasks (put init_queue 4 3 None)" by (simp add: queue_eval)
  have b: "list_all (early_op (5::nat) 100) ?ops" by simp
  have c: "Inr 5 \<notin> set (outputs (put (put init_queue 4 3 None) (5::nat) 7 (Some 100)) ?ops)"
    using scheduled_task_waits_and_is_promoted
      [where task = "5::nat" and self = "put init_queue 4 3 None" and t = 100 and ops = ?ops
         and priority = 7] a b
    by blast
  have d: "outputs (put (put init_queue 4 3 None) (5::nat) 7 (Some 100))
         [Get 10, Put 6 2 (Some 20), Get 99, Get 100] = [Inr 4, Inr 6, Inr 5]"
    by (simp add: queue_eval)
  have e: "get (put init_queue (5::nat) 7 (Some 100)) 99
       = (Inl Empty, \<lparr>queue_object = [], schedule_list = [(100, 5)]\<rparr>)"
    by (simp add: queue_eval)
  show ?thesis using a b c d e by blast
qed

subsection \<open>Order within a priority class\<close>





section \<open>Properties of header merging\<close>

lemma merge_sequence_replace:
  "merge_sequence hdr1 hdr2 True =
     filter (\<lambda>(key, val). key \<notin> set (map fst hdr2)) hdr1 @ hdr2"
proof -
  have l1: "fst (merge_sequence_loop1 xs ks True (ret, hk)) = ret @ filter (\<lambda>(key, val). key \<notin> ks) xs"
    for xs :: "(string \<times> 'a) list" and ks ret hk
    by (induction xs arbitrary: ret hk) auto
  have l2: "merge_sequence_loop2 items hk True ret = ret @ items"
    for items :: "(string \<times> 'a) list" and hk ret
    by (induction items arbitrary: ret) auto
  obtain ret hk where e: "merge_sequence_loop1 hdr1 (set (map fst hdr2)) True ([], {}) = (ret, hk)"
    by (cases "merge_sequence_loop1 hdr1 (set (map fst hdr2)) True ([], {})")
  have "ret = filter (\<lambda>(key, val). key \<notin> set (map fst hdr2)) hdr1"
    using l1 [of hdr1 "set (map fst hdr2)" "[]" "{}"] e by simp
  then show ?thesis
    unfolding merge_sequence_def e by (simp add: l2)
qed

text \<open>
  Claim C9. Called with a sequence of pairs, \<open>merge_with_dict\<close> leaves \<open>hdr1\<close> as it was
  and returns \<open>None\<close>, although the list it builds is another one in general (with
  \<open>replace\<close> it is \<open>hdr1\<close> without the keys of \<open>hdr2\<close>, followed by \<open>hdr2\<close>); called with a
  mapping it returns \<open>None\<close> too and the mapping holds the merged entries.
\<close>

theorem merge_with_dict_sequence_unchanged:
  "merge_with_dict (HSequence hdr1) hdr2 replace = (None, HSequence hdr1)
   \<and> merge_sequence hdr1 hdr2 True = filter (\<lambda>(key, val). key \<notin> set (map fst hdr2)) hdr1 @ hdr2
   \<and> merge_with_dict (HMapping m) hdr2 replace = (None, HMapping (merge_mapping m hdr2 replace))"
  by (simp add: merge_with_dict_def merge_sequence_replace)

theorem merge_with_dict_sequence_unchanged_witness:
  "merge_with_dict (HSequence [(''A'', 1::nat)]) [(''B'', 2)] True = (None, HSequence [(''A'', 1)])
   \<and> merge_sequence [(''A'', 1::nat)] [(''B'', 2)] True = [(''A'', 1), (''B'', 2)]
   \<and> merge_with_dict (HMapping [(''A'', 1::nat)]) [(''B'', 2)] True
       = (None, HMapping [(''A'', 1), (''B'', 2)])"
  using merge_with_dict_sequence_unchanged [of "[(''A'', 1::nat)]" "[(''B'', 2)]" True "[(''A'', 1::nat)]"]
  by simp


section \<open>Properties of the task dispatcher\<close>

text \<open>
  Claim C4. \<open>process_service_result\<close> classifies every result. A \<open>Task\<close> is added to the
  queue and \<open>None\<close> is dropped. For a \<open>ResponseNotValid\<close> that comes with its task, a clone of
  the task is added and the \<open>integrity:\<close> counter of the class is incremented. Any other
  \<open>Exception\<close> that comes as the docstring says (with \<open>exc_info\<close> in \<open>meta\<close>, the handler
  lookup succeeding) is reported by \<open>process_parser_error\<close>, and put on the fatal error
  queue as well when it is a \<open>FatalError\<close>. A \<open>dict\<close> with the key \<open>"grab"\<close> is handed to
  \<open>process_network_result\<close>. Every other value raises \<open>SpiderError\<close> and nothing is called.
\<close>

theorem process_service_result_classifies:
  "process_service_result sp (ResTask new_task) task meta = ([AddTask new_task], None)
   \<and> process_service_result sp ResNone task meta = ([], None)
   \<and> (isinstance c ''ResponseNotValid'' \<longrightarrow>
        process_service_result sp (ResObject c) (Some t) meta =
          ([AddTask (task_clone sp t), StatInc (''integrity:'' @ error_code c)], None))
   \<and> (\<not> isinstance c ''ResponseNotValid'' \<and> isinstance c ''Exception''
        \<and> handler_name sp task = Inr name \<and> map_of m ''exc_info'' = Some exc_info \<longrightarrow>
        process_service_result sp (ResObject c) task (Some m) =
          (if isinstance c ''FatalError''
           then ([ProcessParserError name task exc_info, FatalErrorQueuePut exc_info], None)
           else ([ProcessParserError name task exc_info], None)))
   \<and> (''grab'' \<in> fst ` set d \<longrightarrow>
        process_service_result sp (ResDict d) task meta = process_network_result sp d task)
   \<and> (''grab'' \<notin> fst ` set d \<longrightarrow>
        process_service_result sp (ResDict d) task meta = ([], Some SpiderError))
   \<and> (\<not> isinstance c ''ResponseNotValid'' \<and> \<not> isinstance c ''Exception'' \<longrightarrow>
        process_service_result sp (ResObject c) task meta = ([], Some SpiderError))"
  by (simp add: process_service_result_def)

theorem process_service_result_classifies_witness:
  "isinstance \<lparr>class_name = ''Response_Too_Small'', bases = [''ResponseNotValid'', ''Exception'']\<rparr> ''ResponseNotValid''
   \<and> process_service_result demo_spider
        (ResObject \<lparr>class_name = ''Response_Too_Small'', bases = [''ResponseNotValid'', ''Exception'']\<rparr>)
        (Some 1) None
       = ([AddTask 101, StatInc ''integrity:Response-Too-Small''], None)"
proof -
  let ?c = "\<lparr>class_name = ''Response_Too_Small'', bases = [''ResponseNotValid'', ''Exception'']\<rparr>"
  have i: "isinstance ?c ''ResponseNotValid''" by (simp add: isinstance_def)
  from process_service_result_classifies
    [where c = ?c and sp = demo_spider and t = 1 and meta = None] i
  have "process_service_result demo_spider (ResObject ?c) (Some 1) None =
          ([AddTask (task_clone demo_spider 1), StatInc (''integrity:'' @ error_code ?c)], None)"
    by blast
  then show ?thesis using i by (simp add: demo_spider_def error_code_def)
qed

text \<open>
  Claim C10. For a result that is an \<open>Exception\<close> but not a \<open>ResponseNotValid\<close>, the
  dispatcher reads \<open>meta["exc_info"]\<close> whatever else \<open>meta\<close> holds: two \<open>meta\<close> mappings
  with the same \<open>exc_info\<close> entry give the same outcome, so the entry \<open>from\<close> is never
  looked at. When \<open>meta\<close> is absent or has no \<open>exc_info\<close> key (and the handler lookup
  itself has not raised), the call raises \<open>KeyError\<close>: nothing is reported and no
  \<open>SpiderError\<close> is raised.
\<close>

theorem exception_without_exc_info_raises_KeyError:
  "(\<not> isinstance c ''ResponseNotValid'' \<and> isinstance c ''Exception''
      \<and> handler_name sp task = Inr name
      \<and> map_of (case meta of None \<Rightarrow> [] | Some m \<Rightarrow> m) ''exc_info'' = None \<longrightarrow>
      process_service_result sp (ResObject c) task meta = ([], Some (KeyError ''exc_info'')))
   \<and> (map_of m1 ''exc_info'' = map_of m2 ''exc_info'' \<longrightarrow>
      process_service_result sp (ResObject c) task (Some m1) =
      process_service_result sp (ResObject c) task (Some m2))"
  by (auto simp: process_service_result_def split: sum.splits)

theorem exception_without_exc_info_raises_KeyError_witness:
  "\<not> isinstance \<lparr>class_name = ''ValueError'', bases = [''Exception'']\<rparr> ''ResponseNotValid''
   \<and> isinstance \<lparr>class_name = ''ValueError'', bases = [''Exception'']\<rparr> ''Exception''
   \<and> handler_name demo_spider (Some 1) = Inr ''task_page''
   \<and> process_service_result demo_spider
        (ResObject \<lparr>class_name = ''ValueError'', bases = [''Exception'']\<rparr>) (Some 1)
        (Some [(''source'', 5)])
       = ([], Some (KeyError ''exc_info''))"
proof -
  let ?c = "\<lparr>class_name = ''ValueError'', bases = [''Exception'']\<rparr>"
  have a: "\<not> isinstance ?c ''ResponseNotValid''" by (simp add: isinstance_def)
  have b: "isinstance ?c ''Exception''" by (simp add: isinstance_def)
  have h: "handler_name demo_spider (Some 1) = Inr ''task_page''"
    by (simp add: handler_name_def demo_spider_def)
  have k: "map_of (case Some [(''source'', 5::nat)] of None \<Rightarrow> [] | Some m \<Rightarrow> m) ''exc_info'' = None"
    by simp
  from exception_without_exc_info_raises_KeyError
    [where c = ?c and sp = demo_spider and task = "Some 1" and name = "''task_page''"
       and meta = "Some [(''source'', 5)]"] a b h k
  have "process_service_result demo_spider (ResObject ?c) (Some 1) (Some [(''source'', 5)])
          = ([], Some (KeyError ''exc_info''))"
    by blast
  then show ?thesis using a b h by simp
qed

section \<open>Properties of the HTTP client\<close>

subsection \<open>Resolving the request options\<close>

lemma map_of_rev_distinct:
  "distinct (map fst xs) \<Longrightarrow> map_of (rev xs) = map_of xs"
proof (induction xs)
  case Nil
  then show ?case by simp
next
  case (Cons x xs)
  obtain k v where x: "x = (k, v)" by (cases x)
  from Cons.prems x have "map_of xs k = None"
    by (simp add: map_of_eq_None_iff)
  with Cons x show ?case
    by (auto simp: fun_eq_iff map_add_def split: option.splits)
qed

lemma merge_check_loop_invalid:
  "List.find (\<lambda>key. key \<notin> set init_keys) (map fst items) = Some key \<Longrightarrow>
     merge_check_loop items cfg = Inl (GrabMisuseError (''Invalid request parameter: '' @ key))"
  by (induction items arbitrary: cfg) (auto split: if_splits)

lemma merge_check_loop_valid:
  "set (map fst items) \<subseteq> set init_keys \<Longrightarrow> \<exists>cfg'. merge_check_loop items cfg = Inr cfg'"
  by (induction items arbitrary: cfg) auto

lemma merge_request_configs_valid:
  assumes "set (map fst request_config) \<subseteq> set init_keys"
  shows "\<exists>cfg. merge_request_configs request_config = Inr cfg \<and>
           (\<forall>k. map_of cfg k =
              (if k \<in> set init_keys
               then Some (option_of (rev request_config) k) else None))"
proof -
  from merge_check_loop_valid [OF assms, of "[]"]
  obtain cfg1 where c1: "merge_check_loop request_config [] = Inr cfg1" by blast
  have r: "map_of cfg1 = map_of (rev request_config)"
    using merge_check_loop_map_of [OF c1] by simp
  have "map_of (rev request_config) k = None" if "k \<notin> set init_keys" for k
    using that assms by (auto simp: map_of_eq_None_iff)
  then have "\<forall>k. map_of (merge_fill_loop init_keys cfg1) k =
      (if k \<in> set init_keys then Some (option_of (rev request_config) k) else None)"
    by (auto simp: merge_fill_loop_map_of r option_of_def split: option.splits)
  then show ?thesis
    by (simp add: merge_request_configs_def c1)
qed

lemma resolve_config_invalid:
  "List.find (\<lambda>key. key \<notin> set init_keys) (map fst request_config) = Some key \<Longrightarrow>
     resolve_config request_config = Inl (GrabMisuseError (''Invalid request parameter: '' @ key))"
  by (simp add: resolve_config_def merge_request_configs_def merge_check_loop_invalid)

lemma init_keys_mem:
  "''url'' \<in> set init_keys" "''method'' \<in> set init_keys" "''follow_location'' \<in> set init_keys"
  "''redirect_limit'' \<in> set init_keys" "''cookies'' \<in> set init_keys"
  by (simp_all add: init_keys_def)

lemma resolve_config_no_url:
  assumes "set (map fst request_config) \<subseteq> set init_keys"
    and "option_of (rev request_config) ''url'' = CfgNone"
  shows "resolve_config request_config = Inl (GrabMisuseError ''Request URL must be set'')"
proof -
  from merge_request_configs_valid [OF assms(1)] obtain cfg
    where m: "merge_request_configs request_config = Inr cfg"
      and u: "map_of cfg ''url'' = Some (option_of (rev request_config) ''url'')"
    using init_keys_mem(1) by auto
  show ?thesis
    by (simp add: resolve_config_def m getitem_def u assms(2))
qed

lemma resolve_config_ok:
  assumes "set (map fst request_config) \<subseteq> set init_keys"
    and "option_of (rev request_config) ''url'' \<noteq> CfgNone"
  shows "\<exists>cfg. resolve_config request_config = Inr cfg
     \<and> map_of cfg ''method'' =
         Some (if is_true (option_of (rev request_config) ''method'')
               then option_of (rev request_config) ''method'' else CfgStr ''GET'')
     \<and> map_of cfg ''follow_location'' =
         Some (if option_of (rev request_config) ''follow_location'' = CfgNone
               then CfgBool True else option_of (rev request_config) ''follow_location'')
     \<and> (\<forall>k. k \<noteq> ''method'' \<and> k \<noteq> ''follow_location'' \<longrightarrow>
           map_of cfg k = (if k \<in> set init_keys
                           then Some (option_of (rev request_config) k) else None))"
proof -
  from merge_request_configs_valid [OF assms(1)] obtain cfg0
    where m: "merge_request_configs request_config = Inr cfg0"
      and v: "\<And>k. map_of cfg0 k =
              (if k \<in> set init_keys then Some (option_of (rev request_config) k) else None)"
    by auto
  let ?m = "option_of (rev request_config) ''method''"
  let ?f = "option_of (rev request_config) ''follow_location''"
  let ?cfg1 = "if \<not> is_true ?m then AList.update ''method'' (CfgStr ''GET'') cfg0 else cfg0"
  let ?cfg = "if ?f = CfgNone then AList.update ''follow_location'' (CfgBool True) ?cfg1 else ?cfg1"
  have f1: "map_of ?cfg1 ''follow_location'' = Some ?f"
    using init_keys_mem(3) by (simp add: v update_conv')
  have r: "resolve_config request_config = Inr ?cfg"
    using assms(2) init_keys_mem(1,2) f1
    by (simp add: resolve_config_def m getitem_def v Let_def)
  have "map_of ?cfg ''method'' = Some (if is_true ?m then ?m else CfgStr ''GET'')"
    using init_keys_mem(2) by (simp add: v update_conv')
  moreover have "map_of ?cfg ''follow_location'' = Some (if ?f = CfgNone then CfgBool True else ?f)"
    using f1 by (simp add: update_conv')
  moreover have "\<forall>k. k \<noteq> ''method'' \<and> k \<noteq> ''follow_location'' \<longrightarrow>
           map_of ?cfg k = (if k \<in> set init_keys
                           then Some (option_of (rev request_config) k) else None)"
    by (simp add: v update_conv')
  ultimately show ?thesis using r by blast
qed

lemma resolve_config_Inr_valid:
  assumes "resolve_config request_config = Inr cfg"
  shows "set (map fst request_config) \<subseteq> set init_keys
     \<and> option_of (rev request_config) ''url'' \<noteq> CfgNone"
proof -
  have v: "set (map fst request_config) \<subseteq> set init_keys"
  proof (cases "List.find (\<lambda>key. key \<notin> set init_keys) (map fst request_config)")
    case None
    then show ?thesis by (auto simp: find_None_iff)
  next
    case (Some key)
    from resolve_config_invalid [OF this] assms show ?thesis by simp
  qed
  moreover have "option_of (rev request_config) ''url'' \<noteq> CfgNone"
    using resolve_config_no_url [OF v] assms by auto
  ultimately show ?thesis by simp
qed

lemma prepare_request_Inr:
  assumes "prepare_request env self request_config = (Inr req, self')"
  shows "\<exists>cfg. resolve_config request_config = Inr cfg
     \<and> req = create_from_mapping (default_redirect_limit env) cfg
     \<and> self' = update_session_cookies env (self\<lparr>transport := reset env (transport self)\<rparr>)
                 (req_cookies req) (req_url req)"
  using assms
  by (cases "resolve_config request_config") (auto simp: prepare_request_def Let_def)

lemma prepare_request_follow:
  assumes "prepare_request env self request_config = (Inr req, self')"
  shows "follow_location req = kwargs_follow request_config"
proof -
  from prepare_request_Inr [OF assms] obtain cfg
    where r: "resolve_config request_config = Inr cfg"
      and q: "req = create_from_mapping (default_redirect_limit env) cfg"
    by blast
  from resolve_config_Inr_valid [OF r] resolve_config_ok [of request_config] r
  have f: "map_of cfg ''follow_location'' =
         Some (if option_of (rev request_config) ''follow_location'' = CfgNone
               then CfgBool True else option_of (rev request_config) ''follow_location'')"
    by auto
  show ?thesis
    unfolding q kwargs_follow_def
    by (simp add: create_from_mapping_def option_of_def f split: option.splits)
qed

lemma prepare_request_url:
  assumes "distinct (map fst request_kwargs)"
    and "prepare_request env self (redirect_kwargs env request_kwargs req0 location) = (Inr req, self')"
  shows "req_url req = urljoin env (req_url req0) location"
proof -
  let ?rc = "redirect_kwargs env request_kwargs req0 location"
  from prepare_request_Inr [OF assms(2)] obtain cfg
    where r: "resolve_config ?rc = Inr cfg"
      and q: "req = create_from_mapping (default_redirect_limit env) cfg"
    by blast
  have d: "distinct (map fst ?rc)"
    using assms(1) by (simp add: redirect_kwargs_def distinct_update)
  have "map_of (rev ?rc) ''url'' = Some (CfgStr (urljoin env (req_url req0) location))"
    by (simp add: map_of_rev_distinct [OF d]) (simp add: redirect_kwargs_def update_conv')
  moreover from resolve_config_Inr_valid [OF r] resolve_config_ok [of ?rc] r init_keys_mem(1)
  have "map_of cfg ''url'' = Some (option_of (rev ?rc) ''url'')"
    by auto
  ultimately show ?thesis
    unfolding q by (simp add: create_from_mapping_def option_of_def)
qed

lemma kwargs_follow_redirect_kwargs:
  "kwargs_follow (redirect_kwargs env request_kwargs req redir_url) = kwargs_follow request_kwargs"
  by (simp add: kwargs_follow_def redirect_kwargs_def map_of_rev_update_other)

subsection \<open>The redirect loop\<close>

lemma request_loop_chain:
  assumes "chain_end env request_kwargs req self k = Some (final, selfF, tr)"
    and "follow_location req" and "kwargs_follow request_kwargs"
  shows "if k = 0 \<or> (n + 1 \<le> redirect_limit req \<and> (k = 1 \<or> n + k \<le> kwargs_limit env request_kwargs))
         then request_loop env request_kwargs req n self tr0 = (Inr final, selfF, tr0 @ tr)
         else fst (request_loop env request_kwargs req n self tr0) = Inl GrabTooManyRedirectsError"
  using assms
proof (induction k arbitrary: request_kwargs req self n tr0 tr)
  case 0
  then show ?case
    by (subst request_loop.simps) (auto split: prod.splits sum.splits if_splits)
next
  case (Suc k)
  from Suc.prems(1) obtain doc self1 where ex: "exchange env self req = (Inr doc, self1)"
    by (auto split: prod.splits sum.splits)
  from Suc.prems(1) ex obtain redir_url where fr: "find_redirect_url doc = Inr (Some redir_url)"
    by (auto split: sum.splits option.splits)
  let ?kw = "redirect_kwargs env request_kwargs req redir_url"
  from Suc.prems(1) ex fr obtain req1 self2 where pr: "prepare_request env self1 ?kw = (Inr req1, self2)"
    by (auto split: prod.splits sum.splits)
  from Suc.prems(1) ex fr pr obtain tr1 where ch: "chain_end env ?kw req1 self2 k = Some (final, selfF, tr1)"
    and tr: "tr = (req, Inr doc) # tr1"
    by (auto split: option.splits)
  have l1: "redirect_limit req1 = kwargs_limit env request_kwargs"
    using prepare_request_limit [OF pr] by (simp add: kwargs_limit_redirect_kwargs)
  have f1: "follow_location req1"
    using prepare_request_follow [OF pr] Suc.prems(3) by (simp add: kwargs_follow_redirect_kwargs)
  have kf: "kwargs_follow ?kw"
    using Suc.prems(3) by (simp add: kwargs_follow_redirect_kwargs)
  show ?case
  proof (cases "n + 1 \<le> redirect_limit req")
    case False
    then show ?thesis
      using ex fr Suc.prems(2) by (subst request_loop.simps) simp
  next
    case True
    have step: "request_loop env request_kwargs req n self tr0 =
        request_loop env ?kw req1 (n + 1) self2 (tr0 @ [(req, Inr doc)])"
      using ex fr pr True Suc.prems(2) by (subst request_loop.simps) simp
    from Suc.IH [OF ch f1 kf, of "n + 1" "tr0 @ [(req, Inr doc)]"]
    show ?thesis
      unfolding step using True l1 tr
      by (auto simp: kwargs_limit_redirect_kwargs split: if_splits)
  qed
qed

lemma hops_resolved_last:
  "hops_resolved env (tr @ [(req, r)]) = hops_resolved env (tr @ [(req, r')])"
  by (induction env tr rule: hops_resolved.induct) auto

lemma hops_resolved_extend:
  assumes "hops_resolved env (tr @ [(req, Inr doc)])"
    and "find_redirect_url doc = Inr (Some location)"
    and "req_url req1 = urljoin env (req_url req) location"
  shows "hops_resolved env ((tr @ [(req, Inr doc)]) @ [(req1, r1)])"
  using assms by (induction env tr rule: hops_resolved.induct) auto

lemma request_loop_hops:
  "distinct (map fst request_kwargs) \<Longrightarrow> hops_resolved env (tr0 @ [(req, r)]) \<Longrightarrow>
     hops_resolved env (snd (snd (request_loop env request_kwargs req n self tr0)))"
proof (induction env request_kwargs req n self tr0 arbitrary: r rule: request_loop.induct)
  case (1 env request_kwargs req redir_count self trace)
  obtain res self1 where ex: "exchange env self req = (res, self1)"
    by (cases "exchange env self req")
  have last: "hops_resolved env (trace @ [(req, x)])" for x
    using "1.prems"(2) hops_resolved_last [of env trace req r x] by simp
  show ?case
  proof (cases res)
    case (Inl e)
    then show ?thesis using ex last by (subst request_loop.simps) simp
  next
    case (Inr doc)
    note doc = this
    show ?thesis
    proof (cases "follow_location req")
      case False
      then show ?thesis using ex doc last by (subst request_loop.simps) simp
    next
      case True
      note follow = this
      show ?thesis
      proof (cases "find_redirect_url doc")
        case (Inl e)
        then show ?thesis using ex doc follow last by (subst request_loop.simps) simp
      next
        case (Inr found)
        note found = this
        show ?thesis
        proof (cases found)
          case None
          then show ?thesis using ex doc follow found last by (subst request_loop.simps) simp
        next
          case (Some redir_url)
          note redir = this
          let ?kw = "redirect_kwargs env request_kwargs req redir_url"
          show ?thesis
          proof (cases "redir_count + 1 > redirect_limit req")
            case True
            then show ?thesis using ex doc follow found redir last
              by (subst request_loop.simps) simp
          next
            case False
            note within = this
            obtain p self2 where pr: "prepare_request env self1 ?kw = (p, self2)"
              by (cases "prepare_request env self1 ?kw")
            show ?thesis
            proof (cases p)
              case (Inl e)
              then show ?thesis using ex doc follow found redir within pr last
                by (subst request_loop.simps) simp
            next
              case (Inr req1)
              have step: "request_loop env request_kwargs req redir_count self trace =
                  request_loop env ?kw req1 (redir_count + 1) self2 (trace @ [(req, Inr doc)])"
                using ex doc follow found redir within pr Inr by (subst request_loop.simps) simp
              have u: "req_url req1 = urljoin env (req_url req) redir_url"
                using prepare_request_url [OF "1.prems"(1)] pr Inr by simp
              have d: "distinct (map fst ?kw)"
                using "1.prems"(1) by (simp add: redirect_kwargs_def distinct_update)
              have h: "hops_resolved env ((trace @ [(req, Inr doc)]) @ [(req1, Inl Empty)])"
                using hops_resolved_extend [OF last [of "Inr doc"] _ u] found redir by simp
              from "1.IH" [OF ex [symmetric] _ follow _ _ _ _ _ d h] doc found redir within pr Inr
              show ?thesis unfolding step by simp
            qed
          qed
        qed
      qed
    qed
  qed
qed

lemma request_not_is_request:
  "\<not> is_request url \<Longrightarrow>
     request env self url request_kwargs =
       (case prepare_request env self (given_config url request_kwargs) of
          (Inl e, self1) \<Rightarrow> (Inl e, self1, [])
        | (Inr req, self1) \<Rightarrow> request_loop env (given_config url request_kwargs) req 0 self1 [])"
  by (cases url; clarsimp simp: request_def is_request_def)

lemma distinct_given_config:
  "distinct (map fst request_kwargs) \<Longrightarrow> distinct (map fst (given_config url request_kwargs))"
  by (cases url) (simp_all add: given_config_def distinct_update)

lemma kwargs_follow_prepared:
  "prepare_request env self request_config = (Inr req, self') \<Longrightarrow> follow_location req \<Longrightarrow>
     kwargs_follow request_config"
  using prepare_request_follow by blast

text \<open>
  What \<open>request\<close> does with a request object: the redirect limit of the object decides
  the first redirect only, and every later redirect is checked against the limit of the
  keyword options (the default when they give none).
\<close>

lemma request_object_redirect_limit:
  assumes "chain_end env request_kwargs req self k = Some (final, selfF, tr)"
    and "follow_location req" and "kwargs_follow request_kwargs"
  shows "if k = 0 \<or> (1 \<le> redirect_limit req \<and> (k = 1 \<or> k \<le> kwargs_limit env request_kwargs))
         then request env self (UrlRequest req) request_kwargs = (Inr final, selfF, tr)
         else fst (request env self (UrlRequest req) request_kwargs) = Inl GrabTooManyRedirectsError"
  using request_loop_chain [OF assms, of 0 "[]"] by (simp add: request_def)

text \<open>
  The redirect limit on the path through \<open>prepare_request\<close>. When \<open>request\<close> is
  given a URL or keyword options (not a request object), the request built from them
  follows redirects, and the redirect chain from it has length \<open>k\<close> and ends in a
  document that is no redirect, then \<open>request\<close> returns that document if
  \<open>k \<le> redirect_limit\<close> and raises \<open>GrabTooManyRedirectsError\<close> if
  \<open>k > redirect_limit\<close>. In every run each request after the first goes to the
  \<open>Location\<close> of the response before it, resolved against the URL of the request that
  got that response.
\<close>

lemma redirect_chain_within_limit:
  assumes "\<not> is_request url"
    and "distinct (map fst request_kwargs)"
    and "prepare_request env self (given_config url request_kwargs) = (Inr req, self1)"
    and "follow_location req"
    and "chain_end env (given_config url request_kwargs) req self1 k = Some (final, self2, tr)"
  shows "(k \<le> redirect_limit req \<longrightarrow> request env self url request_kwargs = (Inr final, self2, tr))
    \<and> (redirect_limit req < k \<longrightarrow>
          fst (request env self url request_kwargs) = Inl GrabTooManyRedirectsError)
    \<and> hops_resolved env (snd (snd (request env self url request_kwargs)))"
proof -
  let ?kw = "given_config url request_kwargs"
  have r: "request env self url request_kwargs = request_loop env ?kw req 0 self1 []"
    using assms(1,3) by (simp add: request_not_is_request)
  have l: "redirect_limit req = kwargs_limit env ?kw"
    using assms(3) by (rule prepare_request_limit)
  have kf: "kwargs_follow ?kw"
    using assms(3,4) by (rule kwargs_follow_prepared)
  from request_loop_chain [OF assms(5,4) kf, of 0 "[]"]
  have "if k \<le> redirect_limit req
        then request_loop env ?kw req 0 self1 [] = (Inr final, self2, tr)
        else fst (request_loop env ?kw req 0 self1 []) = Inl GrabTooManyRedirectsError"
    unfolding l [symmetric] by (auto split: if_splits)
  moreover have "hops_resolved env (snd (snd (request_loop env ?kw req 0 self1 [])))"
    using request_loop_hops [OF distinct_given_config [OF assms(2)],
        where env = env and ?tr0.0 = "[]" and req = req and r = "Inl Empty" and n = 0 and self = self1]
    by simp
  ultimately show ?thesis unfolding r by (auto split: if_splits)
qed

lemmas request_eval = prepare_request_def resolve_config_def merge_request_configs_def
  init_keys_def getitem_def create_from_mapping_def option_of_def update_session_cookies_def
  given_config_def redirect_kwargs_def exchange_def process_request_result_def
  find_redirect_url_def Let_def

lemmas demo_eval = demo_env_def demo_grab_def demo_server_def redirect_to_def demo_urljoin_def
  demo_request_def default_grab_config_def

lemma demo_prepare:
  "prepare_request demo_env demo_grab (given_config (UrlStr ''http://h/a'') [(''redirect_limit'', CfgInt n)])
     = (Inr (demo_request ''http://h/a'' n), demo_grab)"
  by (simp add: request_eval demo_eval)

lemma demo_request_fields:
  "redirect_limit (demo_request url limit) = nat limit" "follow_location (demo_request url limit)"
  "req_url (demo_request url limit) = url"
  by (simp_all add: demo_request_def create_from_mapping_def option_of_def)

lemma demo_chain:
  "\<exists>self2 tr. chain_end demo_env (given_config (UrlStr ''http://h/a'') [(''redirect_limit'', CfgInt n)])
      (demo_request ''http://h/a'' n) demo_grab (Suc (Suc 0))
     = Some (demo_server ''http://h/c'', self2, tr)"
  by (simp add: request_eval demo_eval)

lemma redirect_chain_within_limit_example:
  "\<not> is_request (UrlStr ''http://h/a'')
   \<and> follow_location (demo_request ''http://h/a'' 2)
   \<and> fst (request demo_env demo_grab (UrlStr ''http://h/a'') [(''redirect_limit'', CfgInt 2)])
       = Inr (demo_server ''http://h/c'')
   \<and> fst (request demo_env demo_grab (UrlStr ''http://h/a'') [(''redirect_limit'', CfgInt 1)])
       = Inl GrabTooManyRedirectsError"
proof -
  have nr: "\<not> is_request (UrlStr ''http://h/a'')" by (simp add: is_request_def)
  have d: "distinct (map fst [(''redirect_limit'', CfgInt n)])" for n by simp
  obtain s2 t2 where c2: "chain_end demo_env
      (given_config (UrlStr ''http://h/a'') [(''redirect_limit'', CfgInt 2)])
      (demo_request ''http://h/a'' 2) demo_grab (Suc (Suc 0)) = Some (demo_server ''http://h/c'', s2, t2)"
    using demo_chain [of 2] by blast
  obtain s1 t1 where c1: "chain_end demo_env
      (given_config (UrlStr ''http://h/a'') [(''redirect_limit'', CfgInt 1)])
      (demo_request ''http://h/a'' 1) demo_grab (Suc (Suc 0)) = Some (demo_server ''http://h/c'', s1, t1)"
    using demo_chain [of 1] by blast
  from redirect_chain_within_limit [OF nr d demo_prepare demo_request_fields(2) c2]
  have a: "fst (request demo_env demo_grab (UrlStr ''http://h/a'') [(''redirect_limit'', CfgInt 2)])
       = Inr (demo_server ''http://h/c'')"
    by (simp add: demo_request_fields)
  from redirect_chain_within_limit [OF nr d demo_prepare demo_request_fields(2) c1]
  have b: "fst (request demo_env demo_grab (UrlStr ''http://h/a'') [(''redirect_limit'', CfgInt 1)])
       = Inl GrabTooManyRedirectsError"
    by (simp add: demo_request_fields)
  show ?thesis using nr a b by (simp add: demo_request_fields)
qed

text \<open>
  Claim C1. The claim fails for a request given as an object. \<open>request\<close> checks the
  count of redirects against \<open>req.redirect_limit\<close>, but it rebuilds \<open>req\<close> at every
  hop with \<open>prepare_request(request_kwargs)\<close>, from the keyword options alone: the
  limit of the request object decides the first redirect only, and every later redirect
  is checked against the limit the keyword options give (the default when they give
  none; \<open>request_object_redirect_limit\<close> has the general statement). The server answers
  \<open>/a\<close> and \<open>/b\<close> with redirects and \<open>/c\<close> with 200, a chain of length 2; the
  request object asks for \<open>/a\<close> with \<open>follow_location\<close> true and
  \<open>redirect_limit = 1\<close>, and no keyword options are given. The claim has
  \<open>GrabTooManyRedirectsError\<close> raised, since \<open>2 > 1\<close>; the call makes three exchanges
  and returns the document of \<open>/c\<close>. The same request given as a URL with the option
  \<open>redirect_limit=1\<close> raises the error.
\<close>

theorem request_object_redirect_limit_lost:
  "redirect_limit (demo_request ''http://h/a'' 1) = 1
   \<and> follow_location (demo_request ''http://h/a'' 1)
   \<and> chain_end demo_env [] (demo_request ''http://h/a'' 1) demo_grab 2 \<noteq> None
   \<and> fst (request demo_env demo_grab (UrlRequest (demo_request ''http://h/a'' 1)) [])
       = Inr (demo_server ''http://h/c'')
   \<and> length (snd (snd (request demo_env demo_grab (UrlRequest (demo_request ''http://h/a'' 1)) []))) = 3
   \<and> fst (request demo_env demo_grab (UrlStr ''http://h/a'') [(''redirect_limit'', CfgInt 1)])
       = Inl GrabTooManyRedirectsError"
proof -
  have c: "\<exists>self2 tr. chain_end demo_env [] (demo_request ''http://h/a'' 1) demo_grab (Suc (Suc 0))
     = Some (demo_server ''http://h/c'', self2, tr) \<and> length tr = 3"
    by (simp add: request_eval demo_eval)
  then obtain s2 tr where c2: "chain_end demo_env [] (demo_request ''http://h/a'' 1) demo_grab (Suc (Suc 0))
     = Some (demo_server ''http://h/c'', s2, tr)" and l: "length tr = 3"
    by blast
  have kf: "kwargs_follow []" by (simp add: kwargs_follow_def)
  have kl: "kwargs_limit demo_env [] = 10" by (simp add: kwargs_limit_def demo_env_def)
  from request_object_redirect_limit [OF c2 demo_request_fields(2) kf]
  have r: "request demo_env demo_grab (UrlRequest (demo_request ''http://h/a'' 1)) []
       = (Inr (demo_server ''http://h/c''), s2, tr)"
    by (simp add: demo_request_fields kl)
  have nr: "\<not> is_request (UrlStr ''http://h/a'')" by (simp add: is_request_def)
  have d: "distinct (map fst [(''redirect_limit'', CfgInt 1)])" by simp
  obtain s1 t1 where c1: "chain_end demo_env
      (given_config (UrlStr ''http://h/a'') [(''redirect_limit'', CfgInt 1)])
      (demo_request ''http://h/a'' 1) demo_grab (Suc (Suc 0)) = Some (demo_server ''http://h/c'', s1, t1)"
    using demo_chain [of 1] by blast
  from redirect_chain_within_limit [OF nr d demo_prepare demo_request_fields(2) c1]
  have b: "fst (request demo_env demo_grab (UrlStr ''http://h/a'') [(''redirect_limit'', CfgInt 1)])
       = Inl GrabTooManyRedirectsError"
    by (simp add: demo_request_fields)
  show ?thesis using c2 r l b by (simp add: demo_request_fields numeral_2_eq_2)
qed

text \<open>
  The check of the options on the path through \<open>prepare_request\<close>. When \<open>request\<close>
  is given a URL or keyword options (not a request object) and the options hold a key
  outside \<open>Request.init_keys\<close>, it raises \<open>GrabMisuseError\<close> naming such a key; when
  all keys are recognized and no URL is set (\<open>url\<close> is absent or \<open>None\<close>), it raises
  \<open>GrabMisuseError\<close> too. In both cases no exchange has been made: the trace is empty and
  the client is as before but for the reset of the transport. When the keys are
  recognized and the URL is set, the options the request is created from have the method
  \<open>GET\<close> unless a true value was given, and \<open>follow_location\<close> true unless a value
  other than \<open>None\<close> was given.
\<close>

lemma request_rejects_bad_options:
  assumes "\<not> is_request url"
    and "distinct (map fst request_kwargs)"
    and "rc = given_config url request_kwargs"
  shows "((\<exists>key \<in> set (map fst rc). key \<notin> set init_keys) \<longrightarrow>
           (\<exists>key \<in> set (map fst rc). key \<notin> set init_keys \<and>
              request env self url request_kwargs =
                (Inl (GrabMisuseError (''Invalid request parameter: '' @ key)),
                 self\<lparr>transport := reset env (transport self)\<rparr>, [])))
    \<and> (set (map fst rc) \<subseteq> set init_keys \<and> option_of rc ''url'' = CfgNone \<longrightarrow>
          request env self url request_kwargs =
            (Inl (GrabMisuseError ''Request URL must be set''),
             self\<lparr>transport := reset env (transport self)\<rparr>, []))
    \<and> (set (map fst rc) \<subseteq> set init_keys \<and> option_of rc ''url'' \<noteq> CfgNone \<longrightarrow>
          (\<exists>cfg. resolve_config rc = Inr cfg
             \<and> fst (prepare_request env self rc)
                 = Inr (create_from_mapping (default_redirect_limit env) cfg)
             \<and> map_of cfg ''method'' =
                 Some (if is_true (option_of rc ''method'') then option_of rc ''method''
                       else CfgStr ''GET'')
             \<and> map_of cfg ''follow_location'' =
                 Some (if option_of rc ''follow_location'' = CfgNone then CfgBool True
                       else option_of rc ''follow_location'')
             \<and> (\<not> is_true (option_of rc ''method'') \<longrightarrow>
                  req_method (create_from_mapping (default_redirect_limit env) cfg) = ''GET'')
             \<and> (option_of rc ''follow_location'' = CfgNone \<longrightarrow>
                  follow_location (create_from_mapping (default_redirect_limit env) cfg))))"
proof (intro conjI impI)
  have d: "distinct (map fst rc)"
    using assms(2,3) by (simp add: distinct_given_config)
  have rv: "option_of (rev rc) k = option_of rc k" for k
    by (simp add: option_of_def map_of_rev_distinct [OF d])
  have rq: "request env self url request_kwargs =
       (case prepare_request env self rc of
          (Inl e, self1) \<Rightarrow> (Inl e, self1, [])
        | (Inr req, self1) \<Rightarrow> request_loop env rc req 0 self1 [])"
    unfolding assms(3) using assms(1) by (rule request_not_is_request)
  {
    assume "\<exists>key \<in> set (map fst rc). key \<notin> set init_keys"
    then obtain key where f: "List.find (\<lambda>key. key \<notin> set init_keys) (map fst rc) = Some key"
      by (cases "List.find (\<lambda>key. key \<notin> set init_keys) (map fst rc)") (auto simp: find_None_iff)
    then have k: "key \<in> set (map fst rc)" "key \<notin> set init_keys"
      by (auto simp: find_Some_iff)
    have "request env self url request_kwargs =
                (Inl (GrabMisuseError (''Invalid request parameter: '' @ key)),
                 self\<lparr>transport := reset env (transport self)\<rparr>, [])"
      unfolding rq by (simp add: prepare_request_def resolve_config_invalid [OF f])
    with k show "\<exists>key \<in> set (map fst rc). key \<notin> set init_keys \<and>
              request env self url request_kwargs =
                (Inl (GrabMisuseError (''Invalid request parameter: '' @ key)),
                 self\<lparr>transport := reset env (transport self)\<rparr>, [])"
      by blast
  }
  {
    assume "set (map fst rc) \<subseteq> set init_keys \<and> option_of rc ''url'' = CfgNone"
    then have "resolve_config rc = Inl (GrabMisuseError ''Request URL must be set'')"
      using resolve_config_no_url [of rc] by (simp add: rv)
    then show "request env self url request_kwargs =
            (Inl (GrabMisuseError ''Request URL must be set''),
             self\<lparr>transport := reset env (transport self)\<rparr>, [])"
      unfolding rq by (simp add: prepare_request_def)
  }
  {
    assume "set (map fst rc) \<subseteq> set init_keys \<and> option_of rc ''url'' \<noteq> CfgNone"
    with resolve_config_ok [of rc] obtain cfg where r: "resolve_config rc = Inr cfg"
      and m: "map_of cfg ''method'' =
                 Some (if is_true (option_of rc ''method'') then option_of rc ''method''
                       else CfgStr ''GET'')"
      and f: "map_of cfg ''follow_location'' =
                 Some (if option_of rc ''follow_location'' = CfgNone then CfgBool True
                       else option_of rc ''follow_location'')"
      by (auto simp: rv)
    have p: "fst (prepare_request env self rc)
                 = Inr (create_from_mapping (default_redirect_limit env) cfg)"
      by (simp add: prepare_request_def r Let_def)
    have "\<not> is_true (option_of rc ''method'') \<longrightarrow>
                  req_method (create_from_mapping (default_redirect_limit env) cfg) = ''GET''"
      by (simp add: create_from_mapping_def option_of_def m)
    moreover have "option_of rc ''follow_location'' = CfgNone \<longrightarrow>
                  follow_location (create_from_mapping (default_redirect_limit env) cfg)"
      using f by (simp add: create_from_mapping_def option_of_def)
    ultimately show "\<exists>cfg. resolve_config rc = Inr cfg
             \<and> fst (prepare_request env self rc)
                 = Inr (create_from_mapping (default_redirect_limit env) cfg)
             \<and> map_of cfg ''method'' =
                 Some (if is_true (option_of rc ''method'') then option_of rc ''method''
                       else CfgStr ''GET'')
             \<and> map_of cfg ''follow_location'' =
                 Some (if option_of rc ''follow_location'' = CfgNone then CfgBool True
                       else option_of rc ''follow_location'')
             \<and> (\<not> is_true (option_of rc ''method'') \<longrightarrow>
                  req_method (create_from_mapping (default_redirect_limit env) cfg) = ''GET'')
             \<and> (option_of rc ''follow_location'' = CfgNone \<longrightarrow>
                  follow_location (create_from_mapping (default_redirect_limit env) cfg))"
      using r m f p by blast
  }
qed

lemma request_rejects_bad_options_example:
  "\<not> is_request UrlNone
   \<and> request demo_env demo_grab UrlNone [(''bogus'', CfgInt 1)]
       = (Inl (GrabMisuseError ''Invalid request parameter: bogus''), demo_grab, [])
   \<and> request demo_env demo_grab UrlNone [(''method'', CfgStr ''POST'')]
       = (Inl (GrabMisuseError ''Request URL must be set''), demo_grab, [])
   \<and> (\<exists>cfg. fst (prepare_request demo_env demo_grab [(''url'', CfgStr ''http://h/c'')])
              = Inr (create_from_mapping 10 cfg)
          \<and> req_method (create_from_mapping 10 cfg) = ''GET''
          \<and> follow_location (create_from_mapping 10 cfg))"
proof -
  have nr: "\<not> is_request UrlNone" "\<not> is_request (UrlStr ''http://h/c'')"
    by (simp_all add: is_request_def)
  have g: "demo_grab\<lparr>transport := reset demo_env (transport demo_grab)\<rparr> = demo_grab"
    by (simp add: demo_env_def demo_grab_def)
  have dl: "default_redirect_limit demo_env = 10" by (simp add: demo_env_def)
  have a: "request demo_env demo_grab UrlNone [(''bogus'', CfgInt 1)]
       = (Inl (GrabMisuseError ''Invalid request parameter: bogus''), demo_grab, [])"
    using request_rejects_bad_options
      [OF nr(1), where request_kwargs = "[(''bogus'', CfgInt 1)]" and rc = "[(''bogus'', CfgInt 1)]"
         and env = demo_env and self = demo_grab]
    by (simp add: given_config_def init_keys_def g)
  have b: "request demo_env demo_grab UrlNone [(''method'', CfgStr ''POST'')]
       = (Inl (GrabMisuseError ''Request URL must be set''), demo_grab, [])"
    using request_rejects_bad_options
      [OF nr(1), where request_kwargs = "[(''method'', CfgStr ''POST'')]"
         and rc = "[(''method'', CfgStr ''POST'')]" and env = demo_env and self = demo_grab]
    by (simp add: given_config_def init_keys_def option_of_def g)
  have c: "\<exists>cfg. fst (prepare_request demo_env demo_grab [(''url'', CfgStr ''http://h/c'')])
              = Inr (create_from_mapping 10 cfg)
          \<and> req_method (create_from_mapping 10 cfg) = ''GET''
          \<and> follow_location (create_from_mapping 10 cfg)"
    using request_rejects_bad_options
      [OF nr(2), where request_kwargs = "[]" and rc = "[(''url'', CfgStr ''http://h/c'')]"
         and env = demo_env and self = demo_grab]
    by (simp add: given_config_def init_keys_def option_of_def dl) blast
  show ?thesis using nr(1) a b c by blast
qed

text \<open>
  Claim C6. The claim fails for a request given as an object. The branch
  \<open>isinstance(url, Request)\<close> of \<open>request\<close> takes the object as it is and does not
  call \<open>prepare_request\<close>, so the keyword options given beside it are not looked at
  before the first exchange; they are looked at when a redirect is followed and the
  request is rebuilt from them. Given a request object for \<open>/c\<close> (answered with 200)
  and the unknown option \<open>bogus=1\<close>, \<open>request\<close> makes one exchange and returns the
  document, and no \<open>GrabMisuseError\<close> is raised. Given a request object for \<open>/a\<close>
  (answered with a redirect) and the same option, \<open>request\<close> raises the
  \<open>GrabMisuseError\<close> of the unknown key, after one exchange. Given the URL of \<open>/c\<close>
  as a string and the same option, it raises the error and makes no exchange.
\<close>

theorem request_object_bad_option_unchecked:
  "''bogus'' \<notin> set init_keys
   \<and> fst (request demo_env demo_grab (UrlRequest (demo_request ''http://h/c'' 1)) [(''bogus'', CfgInt 1)])
       = Inr (demo_server ''http://h/c'')
   \<and> length (snd (snd (request demo_env demo_grab (UrlRequest (demo_request ''http://h/c'' 1))
        [(''bogus'', CfgInt 1)]))) = 1
   \<and> fst (request demo_env demo_grab (UrlRequest (demo_request ''http://h/a'' 1)) [(''bogus'', CfgInt 1)])
       = Inl (GrabMisuseError ''Invalid request parameter: bogus'')
   \<and> length (snd (snd (request demo_env demo_grab (UrlRequest (demo_request ''http://h/a'' 1))
        [(''bogus'', CfgInt 1)]))) = 1
   \<and> request demo_env demo_grab (UrlStr ''http://h/c'') [(''bogus'', CfgInt 1)]
       = (Inl (GrabMisuseError ''Invalid request parameter: bogus''), demo_grab, [])"
proof -
  have "\<exists>self2 tr. chain_end demo_env [(''bogus'', CfgInt 1)] (demo_request ''http://h/c'' 1) demo_grab 0
     = Some (demo_server ''http://h/c'', self2, tr) \<and> length tr = 1"
    by (simp add: request_eval demo_eval)
  then obtain s2 tr where c: "chain_end demo_env [(''bogus'', CfgInt 1)] (demo_request ''http://h/c'' 1) demo_grab 0
     = Some (demo_server ''http://h/c'', s2, tr)" and l: "length tr = 1"
    by blast
  have kf: "kwargs_follow [(''bogus'', CfgInt 1)]" by (simp add: kwargs_follow_def)
  from request_object_redirect_limit [OF c demo_request_fields(2) kf]
  have a: "request demo_env demo_grab (UrlRequest (demo_request ''http://h/c'' 1)) [(''bogus'', CfgInt 1)]
      = (Inr (demo_server ''http://h/c''), s2, tr)"
    by simp
  have b: "\<exists>self1 tr1.
      request demo_env demo_grab (UrlRequest (demo_request ''http://h/a'' 1)) [(''bogus'', CfgInt 1)]
        = (Inl (GrabMisuseError ''Invalid request parameter: bogus''), self1, tr1) \<and> length tr1 = 1"
    unfolding request_def
    by (subst request_loop.simps) (simp add: request_eval demo_eval)
  have g: "demo_grab\<lparr>transport := reset demo_env (transport demo_grab)\<rparr> = demo_grab"
    by (simp add: demo_env_def demo_grab_def)
  have d: "request demo_env demo_grab (UrlStr ''http://h/c'') [(''bogus'', CfgInt 1)]
       = (Inl (GrabMisuseError ''Invalid request parameter: bogus''), demo_grab, [])"
    by (simp add: request_def prepare_request_def resolve_config_def merge_request_configs_def
        given_config_def init_keys_def g)
  show ?thesis using a b d l by (auto simp: init_keys_def)
qed


section \<open>Properties of cloning and pickling\<close>

lemma lookup_append:
  "a < length h \<Longrightarrow> lookup (h @ ext) a = lookup h a"
  by (simp add: lookup_def nth_append)

lemma lookup_append_new: "lookup (h @ [ob]) (length h) = Some ob"
  by (simp add: lookup_def)

lemma lookup_update_other: "x \<noteq> a \<Longrightarrow> lookup (h[a := ob]) x = lookup h x"
  by (simp add: lookup_def)

lemma set_cookie_new:
  "cookie_key c \<notin> cookie_key ` set jar \<Longrightarrow> set_cookie jar c = jar @ [c]"
  by (induction jar) auto

lemma fold_set_cookie_distinct:
  "distinct (map cookie_key (jar @ items)) \<Longrightarrow>
     fold (\<lambda>c jar. set_cookie jar c) items jar = jar @ items"
proof (induction items arbitrary: jar)
  case Nil
  then show ?case by simp
next
  case (Cons c items)
  from Cons.prems have n: "cookie_key c \<notin> cookie_key ` set jar" by auto
  from Cons.prems have "distinct (map cookie_key ((jar @ [c]) @ items))" by simp
  from Cons.IH [OF this] show ?case by (simp add: set_cookie_new [OF n])
qed

lemma build_jar_distinct: "distinct (map cookie_key jar) \<Longrightarrow> build_jar jar = jar"
  using fold_set_cookie_distinct [of "[]" jar] by (simp add: build_jar_def)

lemma update_new: "map_of al k = None \<Longrightarrow> AList.update k v al = al @ [(k, v)]"
  by (induction al) (auto split: if_splits)

lemma content_append:
  "list_all (\<lambda>v. case v of Ref a \<Rightarrow> a < length h | _ \<Rightarrow> True) [v] \<Longrightarrow>
     content (h @ ext) v = content h v"
  by (cases v) (simp_all add: content_def lookup_append)

lemma copy_props:
  assumes "copy h y = (y1, h1)"
    and "case y of Ref a \<Rightarrow> a < length h | _ \<Rightarrow> True"
  shows "\<exists>ext. h1 = h @ ext" and "content h1 y1 = content h y"
    and "refs_of [y1] \<subseteq> {length h ..< length h1}"
    and "case y1 of Ref a \<Rightarrow> a < length h1 | _ \<Rightarrow> True"
  using assms
  by (cases y; auto simp: copy_def content_def lookup_def refs_of_def nth_append split: option.splits if_splits)+

lemma valid_values_simps [simp]:
  "valid_values h []"
  "valid_values h (v # vs) = ((case v of Ref a \<Rightarrow> a < length h | _ \<Rightarrow> True) \<and> valid_values h vs)"
  "valid_values h (vs @ ws) = (valid_values h vs \<and> valid_values h ws)"
  by (simp_all add: valid_values_def)

lemma valid_values_append_store: "valid_values h vs \<Longrightarrow> valid_values (h @ ext) vs"
  by (induction vs) (auto split: pyval.splits)

lemma content_map_append:
  "valid_values h (map snd items) \<Longrightarrow>
     map (\<lambda>(key, v). (key, content (h @ ext) v)) items = map (\<lambda>(key, v). (key, content h v)) items"
  by (induction items) (auto simp: content_def lookup_append split: pyval.splits)

lemma copy_config_loop_props:
  assumes "copy_config_loop items (acc, h) = (new_items, h1)"
    and "distinct (map fst acc @ map fst items)"
    and "valid_values h (map snd items)" and "valid_values h (map snd acc)"
  shows "(\<exists>ext. h1 = h @ ext)
    \<and> map fst new_items = map fst acc @ map fst items
    \<and> map (\<lambda>(key, v). (key, content h1 v)) new_items =
        map (\<lambda>(key, v). (key, content h v)) (acc @ items)
    \<and> refs_of (map snd new_items) \<subseteq> refs_of (map snd acc) \<union> {length h ..< length h1}
    \<and> valid_values h1 (map snd new_items)"
  using assms
proof (induction items arbitrary: acc h)
  case Nil
  then show ?case by auto
next
  case (Cons item items)
  obtain x y where item: "item = (x, y)" by (cases item)
  obtain y1 h' where c: "copy h y = (y1, h')" by (cases "copy h y")
  from Cons.prems(3) item have vy: "case y of Ref a \<Rightarrow> a < length h | _ \<Rightarrow> True" by simp
  from copy_props [OF c vy] obtain ext where ext: "h' = h @ ext"
    and cy: "content h' y1 = content h y"
    and ry: "refs_of [y1] \<subseteq> {length h ..< length h'}"
    and vy1: "case y1 of Ref a \<Rightarrow> a < length h' | _ \<Rightarrow> True"
    by blast
  from Cons.prems(2) item have "map_of acc x = None"
    by (simp add: map_of_eq_None_iff)
  then have u: "AList.update x y1 acc = acc @ [(x, y1)]" by (rule update_new)
  from Cons.prems(1) item c u have l: "copy_config_loop items (acc @ [(x, y1)], h') = (new_items, h1)"
    by simp
  have d: "distinct (map fst (acc @ [(x, y1)]) @ map fst items)"
    using Cons.prems(2) item by simp
  have v1: "valid_values h' (map snd items)"
    using Cons.prems(3) item ext by (simp add: valid_values_append_store)
  have v2: "valid_values h' (map snd (acc @ [(x, y1)]))"
    using Cons.prems(4) vy1 unfolding ext by (simp add: valid_values_append_store)
  from Cons.IH [OF l d v1 v2] obtain ext1 where e1: "h1 = h' @ ext1"
    and k: "map fst new_items = map fst (acc @ [(x, y1)]) @ map fst items"
    and ct: "map (\<lambda>(key, v). (key, content h1 v)) new_items =
        map (\<lambda>(key, v). (key, content h' v)) ((acc @ [(x, y1)]) @ items)"
    and rf: "refs_of (map snd new_items) \<subseteq> refs_of (map snd (acc @ [(x, y1)])) \<union> {length h' ..< length h1}"
    and vv: "valid_values h1 (map snd new_items)"
    by blast
  have "map (\<lambda>(key, v). (key, content h' v)) ((acc @ [(x, y1)]) @ items)
      = map (\<lambda>(key, v). (key, content h v)) (acc @ item # items)"
    using content_map_append [of h "acc" ext] content_map_append [of h "items" ext]
      Cons.prems(3,4) item cy ext by simp
  moreover have "refs_of (map snd (acc @ [(x, y1)])) \<union> {length h' ..< length h1}
      \<subseteq> refs_of (map snd acc) \<union> {length h ..< length h1}"
    using ry ext e1 by (auto simp: refs_of_def)
  ultimately show ?case
    using e1 ext k ct rf vv item by auto
qed

lemma view_cong:
  assumes "\<And>x. x \<in> footprint h self \<Longrightarrow> lookup h' x = lookup h x"
  shows "view h' self = view h self"
proof -
  have c: "config_items h' self = config_items h self"
    using assms by (cases "slot_config self") (auto simp: config_items_def footprint_def refs_of_def)
  have j: "jar_of h' self = jar_of h self"
    using assms by (cases "slot_cookies self") (auto simp: jar_of_def footprint_def refs_of_def)
  have "map (\<lambda>(key, v). (key, content h' v)) items = map (\<lambda>(key, v). (key, content h v)) items"
    if "config_items h self = Some items" for items
  proof (rule map_cong [OF refl])
    fix e assume e: "e \<in> set items"
    obtain key v where kv: "e = (key, v)" by (cases e)
    have "content h' v = content h v"
    proof (cases v)
      case (Ref a)
      with e kv that have "a \<in> footprint h self"
        by (force simp: footprint_def refs_of_def)
      with assms Ref show ?thesis by (simp add: content_def)
    qed (simp_all add: content_def)
    then show "(case e of (key, v) \<Rightarrow> (key, content h' v)) = (case e of (key, v) \<Rightarrow> (key, content h v))"
      by (simp add: kv)
  qed
  then show ?thesis
    unfolding view_def c j by (cases "config_items h self") simp_all
qed

lemma client_okE:
  assumes "client_ok h self"
  obtains ca ja items jar where "slot_config self = Ref ca" "lookup h ca = Some (ODict items)"
    "slot_cookies self = Ref ja" "lookup h ja = Some (OJar jar)"
    "distinct (map fst items)" "distinct (map cookie_key jar)" "valid_values h (map snd items)"
    "ca < length h" "ja < length h"
proof -
  from assms obtain items jar where ci: "config_items h self = Some items"
    and jo: "jar_of h self = Some jar"
    and d: "distinct (map fst items)" "distinct (map cookie_key jar)" "valid_values h (map snd items)"
    by (auto simp: client_ok_def split: option.splits)
  from ci obtain ca where ca: "slot_config self = Ref ca" "lookup h ca = Some (ODict items)"
    by (auto simp: config_items_def split: pyval.splits option.splits obj.splits)
  from jo obtain ja where ja: "slot_cookies self = Ref ja" "lookup h ja = Some (OJar jar)"
    by (auto simp: jar_of_def split: pyval.splits option.splits obj.splits)
  from ca(2) ja(2) have "ca < length h" "ja < length h"
    by (auto simp: lookup_def split: if_splits)
  with that ca ja d show thesis by blast
qed

lemma footprint_ok_bound:
  assumes "client_ok h self"
  shows "footprint h self \<subseteq> {..< length h}"
proof -
  from assms obtain ca ja items jar where s: "slot_config self = Ref ca" "lookup h ca = Some (ODict items)"
    "slot_cookies self = Ref ja" "valid_values h (map snd items)" "ca < length h" "ja < length h"
    by (rule client_okE)
  have "refs_of (map snd items) \<subseteq> {..< length h}"
    using s(4) by (auto simp: refs_of_def valid_values_def list_all_iff)
  then show ?thesis
    using s by (auto simp: footprint_def refs_of_def config_items_def)
qed

lemma clone_explicit:
  assumes "client_ok h self"
  shows "\<exists>grab h1. clone self [] h = (Inr grab, h1)
     \<and> view h1 grab = view h self
     \<and> (\<forall>x < length h. lookup h1 x = lookup h x)
     \<and> footprint h1 grab \<subseteq> {length h ..< length h1}"
proof -
  from assms obtain ca ja items jar where s: "slot_config self = Ref ca" "lookup h ca = Some (ODict items)"
    "slot_cookies self = Ref ja" "lookup h ja = Some (OJar jar)"
    "distinct (map fst items)" "distinct (map cookie_key jar)" "valid_values h (map snd items)"
    "ca < length h" "ja < length h"
    by (rule client_okE)
  let ?h1 = "h @ [ODict (map (\<lambda>(key, v). (key, Val v)) default_grab_config), OJar []]"
  obtain items2 hx where loop: "copy_config_loop items ([], ?h1) = (items2, hx)"
    by (cases "copy_config_loop items ([], ?h1)")
  have v1: "valid_values ?h1 (map snd items)"
    using s(7) by (rule valid_values_append_store)
  from copy_config_loop_props [OF loop _ v1] s(5)
  obtain ext where ext: "hx = ?h1 @ ext"
    and ct: "map (\<lambda>(key, v). (key, content hx v)) items2 = map (\<lambda>(key, v). (key, content ?h1 v)) items"
    and rf: "refs_of (map snd items2) \<subseteq> {length ?h1 ..< length hx}"
    and vv: "valid_values hx (map snd items2)"
    by (auto simp: refs_of_def)
  let ?h2 = "hx @ [ODict items2]"
  let ?h3 = "hx @ [ODict items2, OJar (build_jar jar)]"
  let ?grab = "\<lparr>slot_config = Ref (length hx), slot_transport = slot_transport self,
                 slot_cookies = Ref (Suc (length hx))\<rparr>"
  have hx: "hx = h @ ([ODict (map (\<lambda>(key, v). (key, Val v)) default_grab_config), OJar []] @ ext)"
    using ext by simp
  have l1: "lookup ?h1 ca = Some (ODict items)"
    using s(2,8) by (simp add: lookup_append)
  have l2: "lookup ?h2 ja = Some (OJar jar)"
    unfolding hx using s(4,9) by (simp add: lookup_append)
  have cl: "clone self [] h = (Inr ?grab, ?h3)"
    by (simp add: clone_def init_grab_def copy_config_def s(1,3) l1 loop jar_items_def l2 Let_def)
  have ci: "config_items ?h3 ?grab = Some items2"
    by (simp add: config_items_def lookup_def nth_append)
  have jo: "jar_of ?h3 ?grab = Some jar"
    by (simp add: jar_of_def lookup_def nth_append build_jar_distinct [OF s(6)])
  have "map (\<lambda>(key, v). (key, content ?h3 v)) items2 = map (\<lambda>(key, v). (key, content hx v)) items2"
    using content_map_append [OF vv, of "[ODict items2, OJar (build_jar jar)]"] by simp
  also have "\<dots> = map (\<lambda>(key, v). (key, content h v)) items"
    using ct content_map_append [OF s(7), of "[ODict (map (\<lambda>(key, v). (key, Val v)) default_grab_config), OJar []]"]
    by simp
  finally have cc: "map (\<lambda>(key, v). (key, content ?h3 v)) items2 = map (\<lambda>(key, v). (key, content h v)) items" .
  have vs: "view h self = (Some (map (\<lambda>(key, v). (key, content h v)) items), Some jar)"
    by (simp add: view_def config_items_def jar_of_def s)
  have vg: "view ?h3 ?grab = view h self"
    unfolding vs by (simp add: view_def ci jo cc)
  have ex: "\<forall>x < length h. lookup ?h3 x = lookup h x"
    unfolding hx by (simp add: lookup_def nth_append)
  have fp: "footprint ?h3 ?grab \<subseteq> {length h ..< length ?h3}"
    using rf unfolding footprint_def ci by (auto simp: refs_of_def hx)
  show ?thesis using cl vg ex fp by blast
qed

text \<open>
  Claim C7, as amended. \<open>clone()\<close> of a client in good order gives a new client whose
  configuration mapping is a new mapping with every value copied by \<open>copy.copy\<close>, one
  level deep, and whose jar is a new jar with the same cookies: the clone sees what the
  original sees, and the original is unchanged. The objects the two clients own (the
  mapping, the jar and the objects the configuration values refer to) are disjoint, so
  whatever is written afterwards into an object of one of them leaves the view of the
  other unchanged. Nothing is said of objects nested deeper inside a configuration value.
\<close>

theorem clone_is_independent:
  assumes "client_ok h self"
  shows "\<exists>grab h1. clone self [] h = (Inr grab, h1)
     \<and> view h1 grab = view h self \<and> view h1 self = view h self
     \<and> footprint h1 grab \<inter> footprint h1 self = {}
     \<and> (\<forall>a ob. a \<in> footprint h1 self \<longrightarrow> view (h1[a := ob]) grab = view h1 grab)
     \<and> (\<forall>a ob. a \<in> footprint h1 grab \<longrightarrow> view (h1[a := ob]) self = view h1 self)"
proof -
  from clone_explicit [OF assms] obtain grab h1 where cl: "clone self [] h = (Inr grab, h1)"
    and vg: "view h1 grab = view h self"
    and ex: "\<forall>x < length h. lookup h1 x = lookup h x"
    and fg: "footprint h1 grab \<subseteq> {length h ..< length h1}"
    by blast
  have fb: "footprint h self \<subseteq> {..< length h}"
    using assms by (rule footprint_ok_bound)
  have vs: "view h1 self = view h self"
    using ex fb by (intro view_cong) auto
  from assms obtain ca where ca: "slot_config self = Ref ca" "ca < length h"
    by (rule client_okE)
  have "config_items h1 self = config_items h self"
    using ca ex by (simp add: config_items_def)
  then have fs: "footprint h1 self = footprint h self"
    by (simp add: footprint_def)
  have dj: "footprint h1 grab \<inter> footprint h1 self = {}"
  proof -
    have "x \<notin> footprint h self" if "x \<in> footprint h1 grab" for x
    proof
      assume "x \<in> footprint h self"
      with fb have "x < length h" by auto
      moreover from that fg have "length h \<le> x" by auto
      ultimately show False by simp
    qed
    then show ?thesis unfolding fs by auto
  qed
  have a1: "view (h1[a := ob]) grab = view h1 grab" if "a \<in> footprint h1 self" for a ob
  proof (rule view_cong)
    fix x assume "x \<in> footprint h1 grab"
    with that dj have "x \<noteq> a" by auto
    then show "lookup (h1[a := ob]) x = lookup h1 x" by (rule lookup_update_other)
  qed
  have a2: "view (h1[a := ob]) self = view h1 self" if "a \<in> footprint h1 grab" for a ob
  proof (rule view_cong)
    fix x assume "x \<in> footprint h1 self"
    with that dj have "x \<noteq> a" by auto
    then show "lookup (h1[a := ob]) x = lookup h1 x" by (rule lookup_update_other)
  qed
  show ?thesis using cl vg vs dj a1 a2 by blast
qed

lemmas clone_eval = clone_def init_grab_def copy_config_def copy_def jar_items_def lookup_def
  config_items_def jar_of_def referent_def content_def view_def first_item_def list_append_def
  build_jar_def create_cookie_def cookie_key_def default_grab_config_def valid_values_def
  client_ok_def demo_store_def demo_client_def Let_def

theorem clone_is_independent_witness:
  "client_ok demo_store demo_client
   \<and> (\<exists>grab h1. clone demo_client [] demo_store = (Inr grab, h1)
        \<and> view h1 grab = view demo_store demo_client
        \<and> footprint h1 grab \<inter> footprint h1 demo_client = {})"
proof -
  have ok: "client_ok demo_store demo_client" by (simp add: clone_eval)
  from clone_is_independent [OF ok] show ?thesis using ok by blast
qed

text \<open>
  Claim C7 as stated fails: the configuration is not copied deeply. With the
  configuration \<open>{"reuse_cookies": True, "opts": [[1]]}\<close>, the clone's \<open>config["opts"]\<close>
  is a new list, but its first item is the same inner list (object 3) as the original's;
  after \<open>config["opts"][0].append(2)\<close> on the original, the inner list that the clone's
  configuration holds reads \<open>[1, 2]\<close>.
\<close>

theorem clone_shares_nested_counterexample:
  "(case clone demo_client [] demo_store of
      (Inl e, h1) \<Rightarrow> False
    | (Inr grab, h1) \<Rightarrow>
        first_item h1 demo_client ''opts'' = Some (Ref 3)
        \<and> first_item h1 grab ''opts'' = Some (Ref 3)
        \<and> referent h1 (Ref 3) = Some (OList [Val (CfgInt 1)])
        \<and> first_item (list_append h1 3 (Val (CfgInt 2))) grab ''opts'' = Some (Ref 3)
        \<and> referent (list_append h1 3 (Val (CfgInt 2))) (Ref 3)
            = Some (OList [Val (CfgInt 1), Val (CfgInt 2)]))"
  by (simp add: clone_eval)

lemma getstate_explicit:
  assumes "slot_cookies self = Ref ja" and "lookup h ja = Some (OJar jar)"
  shows "getstate self h =
     Inr [(''config'', slot_config self), (''transport'', slot_transport self),
          (''_cookies_items'', CookieList jar)]"
  by (simp add: getstate_def slots_def jar_items_def assms getattr_def)

lemma setstate_loop_unknown:
  "list_all (\<lambda>(key, v). key \<noteq> ''_cookies_items'' \<or> is_cookie_list v) state \<Longrightarrow>
   List.find (\<lambda>key. key \<noteq> ''_cookies_items'' \<and> key \<notin> set slots) (map fst state) = Some key \<Longrightarrow>
     fst (setstate_loop state self h) = Some (not_in_slots key)"
proof (induction state arbitrary: self h)
  case Nil
  then show ?case by simp
next
  case (Cons entry state)
  obtain k v where e: "entry = (k, v)" by (cases entry)
  show ?case
  proof (cases "k = ''_cookies_items''")
    case True
    with Cons.prems(1) e obtain items where v: "v = CookieList items"
      by (auto simp: is_cookie_list_def split: pyval.splits)
    from Cons.prems e True have "list_all (\<lambda>(key, v). key \<noteq> ''_cookies_items'' \<or> is_cookie_list v) state"
      and "List.find (\<lambda>key. key \<noteq> ''_cookies_items'' \<and> key \<notin> set slots) (map fst state) = Some key"
      by simp_all
    from Cons.IH [OF this] show ?thesis by (simp add: e True v)
  next
    case False
    show ?thesis
    proof (cases "k \<in> set slots")
      case True
      from Cons.prems e False True have "list_all (\<lambda>(key, v). key \<noteq> ''_cookies_items'' \<or> is_cookie_list v) state"
        and "List.find (\<lambda>key. key \<noteq> ''_cookies_items'' \<and> key \<notin> set slots) (map fst state) = Some key"
        by simp_all
      from Cons.IH [OF this] show ?thesis using False True by (simp add: e)
    next
      case notin: False
      with Cons.prems(2) e False have "key = k" by simp
      then show ?thesis using False notin by (simp add: e)
    qed
  qed
qed

text \<open>
  Claim C8. For a client in good order, \<open>__getstate__\<close> gives a state that
  \<open>__setstate__\<close> accepts on any client, and the client then has the same configuration
  and transport and a new jar with the same cookies, so it sees what the pickled client
  saw. A state whose first key that is neither a slot nor \<open>_cookies_items\<close> is \<open>key\<close>
  (the values under \<open>_cookies_items\<close> before it being lists of cookies) makes
  \<open>__setstate__\<close> raise the \<open>ValueError\<close> for \<open>key\<close>.
\<close>

theorem getstate_setstate_roundtrip:
  assumes "client_ok h self"
  shows "(\<exists>state grab h1. getstate self h = Inr state
            \<and> setstate other state h = (None, grab, h1)
            \<and> slot_config grab = slot_config self \<and> slot_transport grab = slot_transport self
            \<and> config_items h1 grab = config_items h self
            \<and> jar_of h1 grab = jar_of h self
            \<and> view h1 grab = view h self)
    \<and> (list_all (\<lambda>(key, v). key \<noteq> ''_cookies_items'' \<or> is_cookie_list v) state'
         \<and> List.find (\<lambda>key. key \<noteq> ''_cookies_items'' \<and> key \<notin> set slots) (map fst state') = Some key
        \<longrightarrow> fst (setstate other' state' h') = Some (not_in_slots key))"
proof (intro conjI impI)
  from assms obtain ca ja items jar where s: "slot_config self = Ref ca" "lookup h ca = Some (ODict items)"
    "slot_cookies self = Ref ja" "lookup h ja = Some (OJar jar)"
    "distinct (map fst items)" "distinct (map cookie_key jar)" "valid_values h (map snd items)"
    "ca < length h" "ja < length h"
    by (rule client_okE)
  let ?state = "[(''config'', slot_config self), (''transport'', slot_transport self),
          (''_cookies_items'', CookieList jar)]"
  let ?grab = "\<lparr>slot_config = slot_config self, slot_transport = slot_transport self,
                 slot_cookies = Ref (length h)\<rparr>"
  let ?h1 = "h @ [OJar jar]"
  have g: "getstate self h = Inr ?state"
    using s(3,4) by (rule getstate_explicit)
  have st: "setstate other ?state h = (None, ?grab, ?h1)"
    by (simp add: setstate_def slots_def setattr_def build_jar_distinct [OF s(6)])
  have ci: "config_items ?h1 ?grab = config_items h self"
    using s(1,8) by (simp add: config_items_def lookup_append)
  have jo: "jar_of ?h1 ?grab = jar_of h self"
    using s(3,4) by (simp add: jar_of_def lookup_append_new)
  have "map (\<lambda>(key, v). (key, content ?h1 v)) items = map (\<lambda>(key, v). (key, content h v)) items"
    using s(7) by (rule content_map_append)
  then have vw: "view ?h1 ?grab = view h self"
    unfolding view_def ci jo by (simp add: config_items_def s)
  show "\<exists>state grab h1. getstate self h = Inr state
            \<and> setstate other state h = (None, grab, h1)
            \<and> slot_config grab = slot_config self \<and> slot_transport grab = slot_transport self
            \<and> config_items h1 grab = config_items h self
            \<and> jar_of h1 grab = jar_of h self
            \<and> view h1 grab = view h self"
    using g st ci jo vw by (intro exI [of _ ?state] exI [of _ ?grab] exI [of _ ?h1]) simp
next
  assume "list_all (\<lambda>(key, v). key \<noteq> ''_cookies_items'' \<or> is_cookie_list v) state'
         \<and> List.find (\<lambda>key. key \<noteq> ''_cookies_items'' \<and> key \<notin> set slots) (map fst state') = Some key"
  then show "fst (setstate other' state' h') = Some (not_in_slots key)"
    using setstate_loop_unknown [of state' key other' h'] by (simp add: setstate_def)
qed

theorem getstate_setstate_roundtrip_witness:
  "client_ok demo_store demo_client
   \<and> (\<exists>state grab h1. getstate demo_client demo_store = Inr state
        \<and> setstate demo_client state demo_store = (None, grab, h1)
        \<and> view h1 grab = view demo_store demo_client)
   \<and> fst (setstate demo_client [(''config'', Ref 0), (''jar'', Ref 1)] demo_store)
       = Some (not_in_slots ''jar'')"
proof -
  have ok: "client_ok demo_store demo_client" by (simp add: clone_eval)
  have a: "list_all (\<lambda>(key, v). key \<noteq> ''_cookies_items'' \<or> is_cookie_list v)
             [(''config'', Ref 0), (''jar'', Ref 1)]"
    by simp
  have b: "List.find (\<lambda>key. key \<noteq> ''_cookies_items'' \<and> key \<notin> set slots)
             (map fst [(''config'', Ref 0), (''jar'', Ref 1 :: pyval)]) = Some ''jar''"
    by (simp add: slots_def)
  from getstate_setstate_roundtrip [OF ok, where other = demo_client and other' = demo_client
      and state' = "[(''config'', Ref 0), (''jar'', Ref 1)]" and key = "''jar''" and h' = demo_store] a b
  show ?thesis using ok by blast
qed


end
